theory Spec2Isabelle
  imports Main "HOL-Library.Product_Lexorder"
begin

section \<open>The Minesweeper knowledge engine of \<^verbatim>\<open>minesweeper.py\<close>\<close>

text \<open>
  A cell is a pair \<^verbatim>\<open>(row, col)\<close> of Python integers. Python sets are finite sets of
  values; they are modelled as HOL sets. Where the source iterates over a set (an order
  Python leaves open) the model iterates over the sorted enumeration of the set; the
  lemmas of the section on closed forms show that the result is the same for every order
  in which the elements could have been visited.
\<close>

type_synonym cell = "int \<times> int"

definition set_iter :: "cell set \<Rightarrow> cell list" where
  "set_iter A = sorted_list_of_set A"

subsection \<open>Class \<^verbatim>\<open>Sentence\<close>\<close>

record sentence =
  cells :: "cell set"
  count :: int

text \<open>\<^verbatim>\<open>Sentence.__init__\<close>: the cells are stored as a set.\<close>

definition Sentence :: "cell set \<Rightarrow> int \<Rightarrow> sentence" where
  "Sentence cs n = \<lparr>cells = cs, count = n\<rparr>"

text \<open>
  \<^verbatim>\<open>Sentence.__eq__\<close> compares the cell sets and the counts: it is equality of the
  record. \<^verbatim>\<open>x in list\<close> and \<^verbatim>\<open>x not in list\<close> use it, so they are membership in
  the set of the list.
\<close>

definition known_mines :: "sentence \<Rightarrow> cell set" where
  "known_mines sen =
     (if int (card (cells sen)) = count sen \<and> count sen > 0 then cells sen else {})"

definition known_safes :: "sentence \<Rightarrow> cell set" where
  "known_safes sen =
     (if count sen = 0 \<and> card (cells sen) > 0 then cells sen else {})"

text \<open>\<^verbatim>\<open>Sentence.mark_mine\<close> and \<^verbatim>\<open>Sentence.mark_safe\<close>.\<close>

definition sentence_mark_mine :: "sentence \<Rightarrow> cell \<Rightarrow> sentence" where
  "sentence_mark_mine sen c =
     (if c \<in> cells sen then sen\<lparr>cells := cells sen - {c}, count := count sen - 1\<rparr> else sen)"

definition sentence_mark_safe :: "sentence \<Rightarrow> cell \<Rightarrow> sentence" where
  "sentence_mark_safe sen c =
     (if c \<in> cells sen then sen\<lparr>cells := cells sen - {c}\<rparr> else sen)"

subsection \<open>Class \<^verbatim>\<open>MinesweeperAI\<close>\<close>

record ai =
  height :: int
  width :: int
  moves_made :: "cell set"
  mines :: "cell set"
  safes :: "cell set"
  knowledge :: "sentence list"

text \<open>\<^verbatim>\<open>MinesweeperAI.__init__\<close>.\<close>

definition init_ai :: "int \<Rightarrow> int \<Rightarrow> ai" where
  "init_ai h w = \<lparr>height = h, width = w, moves_made = {}, mines = {}, safes = {},
                  knowledge = []\<rparr>"

text \<open>
  \<^verbatim>\<open>MinesweeperAI.mark_mine\<close> and \<^verbatim>\<open>MinesweeperAI.mark_safe\<close>. Every element of
  \<^verbatim>\<open>self.knowledge\<close> is an object of its own (a sentence is appended right after it is
  constructed, and the rebuilt list takes each old element at most once), so mutating
  the sentences in place is a map over the list.
\<close>

definition mark_mine :: "ai \<Rightarrow> cell \<Rightarrow> ai" where
  "mark_mine s c =
     s\<lparr>mines := insert c (mines s),
       knowledge := map (\<lambda>sen. sentence_mark_mine sen c) (knowledge s)\<rparr>"

definition mark_safe :: "ai \<Rightarrow> cell \<Rightarrow> ai" where
  "mark_safe s c =
     s\<lparr>safes := insert c (safes s),
       knowledge := map (\<lambda>sen. sentence_mark_safe sen c) (knowledge s)\<rparr>"

text \<open>
  The neighbourhood loop of \<^verbatim>\<open>add_knowledge\<close>: \<^verbatim>\<open>range(x - 1, x + 2)\<close> in both
  coordinates, the cell itself skipped, the pair \<^verbatim>\<open>(neighbors, count)\<close> threaded
  through.
\<close>

definition around :: "cell \<Rightarrow> cell list" where
  "around c = (case c of (x, y) \<Rightarrow>
     concat (map (\<lambda>i. map (\<lambda>j. (i, j)) [y - 1, y, y + 1]) [x - 1, x, x + 1]))"

definition neighbor_step :: "ai \<Rightarrow> cell \<Rightarrow> cell \<Rightarrow> cell set \<times> int \<Rightarrow> cell set \<times> int" where
  "neighbor_step s c n acc = (case acc of (neighbors, cnt) \<Rightarrow>
     if n = c then (neighbors, cnt)
     else if 0 \<le> fst n \<and> fst n < height s \<and> 0 \<le> snd n \<and> snd n < width s then
       (if n \<notin> moves_made s \<and> n \<notin> safes s \<and> n \<notin> mines s then (insert n neighbors, cnt)
        else if n \<in> mines s then (neighbors, cnt - 1)
        else (neighbors, cnt))
     else (neighbors, cnt))"

definition collect_neighbors :: "ai \<Rightarrow> cell \<Rightarrow> int \<Rightarrow> cell set \<times> int" where
  "collect_neighbors s c cnt = fold (neighbor_step s c) (around c) ({}, cnt)"

definition add_sentence :: "ai \<Rightarrow> cell set \<times> int \<Rightarrow> ai" where
  "add_sentence s nc = (case nc of (neighbors, cnt) \<Rightarrow>
     if card neighbors > 0 then
       (let new_sentence = Sentence neighbors cnt
        in if new_sentence \<notin> set (knowledge s)
           then s\<lparr>knowledge := knowledge s @ [new_sentence]\<rparr> else s)
     else s)"

subsection \<open>One pass of the \<^verbatim>\<open>while update_needed\<close> loop\<close>

text \<open>Collecting \<^verbatim>\<open>new_mines\<close> and \<^verbatim>\<open>new_safes\<close> over the knowledge base.\<close>

definition collect_known :: "sentence list \<Rightarrow> cell set \<times> cell set" where
  "collect_known kb =
     fold (\<lambda>sen (nm, ns). (nm \<union> known_mines sen, ns \<union> known_safes sen)) kb ({}, {})"

text \<open>
  \<^verbatim>\<open>for mine in new_mines: if mine not in self.mines: ...\<close> and the same loop for the
  safes; the flag is \<^verbatim>\<open>update_needed\<close>.
\<close>

definition mines_step :: "cell \<Rightarrow> ai \<times> bool \<Rightarrow> ai \<times> bool" where
  "mines_step c su = (case su of (s, u) \<Rightarrow>
     if c \<notin> mines s then (mark_mine s c, True) else (s, u))"

definition safes_step :: "cell \<Rightarrow> ai \<times> bool \<Rightarrow> ai \<times> bool" where
  "safes_step c su = (case su of (s, u) \<Rightarrow>
     if c \<notin> safes s then (mark_safe s c, True) else (s, u))"

definition mark_new_mines :: "cell set \<Rightarrow> ai \<times> bool \<Rightarrow> ai \<times> bool" where
  "mark_new_mines new_mines su = fold mines_step (set_iter new_mines) su"

definition mark_new_safes :: "cell set \<Rightarrow> ai \<times> bool \<Rightarrow> ai \<times> bool" where
  "mark_new_safes new_safes su = fold safes_step (set_iter new_safes) su"

text \<open>
  The rebuilding of the knowledge base: for each sentence the cells that are known safe
  or known mines are collected in \<^verbatim>\<open>cells_to_remove\<close> (a known mine lowers the count),
  then removed; the sentence is kept when cells remain. The \<^verbatim>\<open>elif\<close> branch of the
  source is \<^verbatim>\<open>pass\<close> and there is no \<^verbatim>\<open>else\<close>: a sentence without cells is not
  appended, whatever its count.
\<close>

definition remove_step :: "ai \<Rightarrow> cell \<Rightarrow> cell set \<times> int \<Rightarrow> cell set \<times> int" where
  "remove_step s c acc = (case acc of (cells_to_remove, cnt) \<Rightarrow>
     if c \<in> safes s then (insert c cells_to_remove, cnt)
     else if c \<in> mines s then (insert c cells_to_remove, cnt - 1)
     else (cells_to_remove, cnt))"

definition reduce_sentence :: "ai \<Rightarrow> sentence \<Rightarrow> sentence" where
  "reduce_sentence s sen =
     (case fold (remove_step s) (set_iter (cells sen)) ({}, count sen) of
        (cells_to_remove, cnt) \<Rightarrow> sen\<lparr>cells := cells sen - cells_to_remove, count := cnt\<rparr>)"

definition rebuild_step :: "ai \<Rightarrow> sentence \<Rightarrow> sentence list \<Rightarrow> sentence list" where
  "rebuild_step s sen new_knowledge_base =
     (let sen' = reduce_sentence s sen
      in if card (cells sen') > 0 then new_knowledge_base @ [sen']
         else if card (cells sen') = 0 \<and> count sen' = 0 then new_knowledge_base
         else new_knowledge_base)"

definition rebuild :: "ai \<Rightarrow> sentence list" where
  "rebuild s = fold (rebuild_step s) (knowledge s) []"

text \<open>The two nested loops of the subset inference over the rebuilt knowledge base.\<close>

definition infer_step ::
  "sentence list \<Rightarrow> sentence \<Rightarrow> sentence \<Rightarrow> sentence list \<times> bool \<Rightarrow> sentence list \<times> bool" where
  "infer_step kb s1 s2 acc = (case acc of (new_inferences, u) \<Rightarrow>
     if s1 = s2 then (new_inferences, u)
     else if cells s1 \<subseteq> cells s2 then
       (if cells s1 \<noteq> cells s2 then
          (let inferred_cells = cells s2 - cells s1;
               inferred_count = count s2 - count s1
           in if card inferred_cells > 0 \<and> inferred_count \<ge> 0
                 \<and> inferred_count \<le> int (card inferred_cells) then
                (let new_sentence = Sentence inferred_cells inferred_count
                 in if new_sentence \<notin> set kb \<and> new_sentence \<notin> set new_inferences
                    then (new_inferences @ [new_sentence], True)
                    else (new_inferences, u))
              else (new_inferences, u))
        else (new_inferences, u))
     else (new_inferences, u))"

definition infer :: "sentence list \<Rightarrow> bool \<Rightarrow> sentence list \<times> bool" where
  "infer kb u = fold (\<lambda>s1 acc. fold (infer_step kb s1) kb acc) kb ([], u)"

definition pass :: "ai \<Rightarrow> ai \<times> bool" where
  "pass s =
     (case collect_known (knowledge s) of (new_mines, new_safes) \<Rightarrow>
      case mark_new_mines new_mines (s, False) of (s1, u1) \<Rightarrow>
      case mark_new_safes new_safes (s1, u1) of (s2, u2) \<Rightarrow>
      let new_knowledge_base = rebuild s2;
          u3 = (if length new_knowledge_base < length (knowledge s2) then True else u2)
      in case infer new_knowledge_base u3 of (new_inferences, u4) \<Rightarrow>
           (s2\<lparr>knowledge := new_knowledge_base @ new_inferences\<rparr>, u4))"

text \<open>
  The loop itself. Nothing in its text bounds the number of passes, so it is a partial
  function: \<open>None\<close> stands for a loop that never leaves.
\<close>

partial_function (option) fixpoint :: "ai \<Rightarrow> ai option" where
  "fixpoint s = (if snd (pass s) then fixpoint (fst (pass s)) else Some (fst (pass s)))"

declare fixpoint.simps [code]

definition add_knowledge :: "ai \<Rightarrow> cell \<Rightarrow> int \<Rightarrow> ai option" where
  "add_knowledge s c cnt =
     (let s1 = s\<lparr>moves_made := insert c (moves_made s)\<rparr>;
          s2 = mark_safe s1 c;
          s3 = add_sentence s2 (collect_neighbors s2 c cnt)
      in fixpoint s3)"

text \<open>\<^verbatim>\<open>MinesweeperAI.make_safe_move\<close>: the first safe cell, in iteration order, that is
  not a move made; \<open>None\<close> is Python's \<^verbatim>\<open>None\<close>.\<close>

definition make_safe_move :: "ai \<Rightarrow> cell option" where
  "make_safe_move s = find (\<lambda>safe_cell. safe_cell \<notin> moves_made s) (set_iter (safes s))"

subsection \<open>Class \<^verbatim>\<open>Minesweeper\<close>: the board that reports the counts\<close>

text \<open>
  The board is a \<^verbatim>\<open>height\<close> by \<^verbatim>\<open>width\<close> table of booleans; it is modelled by the set
  of the cells that hold \<^verbatim>\<open>True\<close>. \<^verbatim>\<open>nearby_mines\<close> reads it inside the bounds only.
\<close>

definition nearby_step :: "int \<Rightarrow> int \<Rightarrow> cell set \<Rightarrow> cell \<Rightarrow> cell \<Rightarrow> int \<Rightarrow> int" where
  "nearby_step h w board c n cnt =
     (if n = c then cnt
      else if 0 \<le> fst n \<and> fst n < h \<and> 0 \<le> snd n \<and> snd n < w then
        (if n \<in> board then cnt + 1 else cnt)
      else cnt)"

definition nearby_mines :: "int \<Rightarrow> int \<Rightarrow> cell set \<Rightarrow> cell \<Rightarrow> int" where
  "nearby_mines h w board c = fold (nearby_step h w board c) (around c) 0"

subsection \<open>Closed forms\<close>

text \<open>
  The loops above visit sets element by element. The following definitions say what they
  compute as a whole: \<open>reduce_by S Mn\<close> removes the safe cells \<open>S\<close> and the mines \<open>Mn\<close>
  from a sentence and lowers its count by the number of mines removed; \<open>subtract s1 s2\<close>
  is the sentence the subset inference builds from a pair, and \<open>inferable kb s1 s2\<close> is
  the condition under which the source builds it and finds it new with respect to the
  knowledge base.
\<close>

definition reduce_by :: "cell set \<Rightarrow> cell set \<Rightarrow> sentence \<Rightarrow> sentence" where
  "reduce_by S Mn sen =
     sen\<lparr>cells := cells sen - (S \<union> Mn), count := count sen - int (card (cells sen \<inter> Mn))\<rparr>"

definition subtract :: "sentence \<Rightarrow> sentence \<Rightarrow> sentence" where
  "subtract s1 s2 = Sentence (cells s2 - cells s1) (count s2 - count s1)"

definition inferable :: "sentence list \<Rightarrow> sentence \<Rightarrow> sentence \<Rightarrow> bool" where
  "inferable kb s1 s2 \<longleftrightarrow>
     cells s1 \<subset> cells s2 \<and> card (cells s2 - cells s1) > 0
     \<and> 0 \<le> count s2 - count s1 \<and> count s2 - count s1 \<le> int (card (cells s2 - cells s1))
     \<and> subtract s1 s2 \<notin> set kb"

subsection \<open>States used as examples\<close>

definition two_sentences :: ai where
  "two_sentences =
     (init_ai 2 2)\<lparr>knowledge := [Sentence {(0, 0), (0, 1)} 1, Sentence {(1, 1)} 1]\<rparr>"

definition probed_corner :: ai where
  "probed_corner = (init_ai 2 2)\<lparr>moves_made := {(0, 0)}, safes := {(0, 0), (0, 1)}\<rparr>"

text \<open>
  States of a 2 by 3 board whose corner \<open>(0, 0)\<close> was probed with count 1, followed by
  a probe of \<open>(0, 1)\<close> with count 1, or with the impossible count 4.
\<close>

definition after_corner :: ai where
  "after_corner = \<lparr>height = 2, width = 3, moves_made = {(0, 0)}, mines = {}, safes = {(0, 0)},
     knowledge = [Sentence {(0, 1), (1, 0), (1, 1)} 1]\<rparr>"

definition after_duplicate :: ai where
  "after_duplicate = \<lparr>height = 2, width = 3, moves_made = {(0, 0), (0, 1)}, mines = {},
     safes = {(0, 0), (0, 1), (0, 2), (1, 2)},
     knowledge = [Sentence {(1, 0), (1, 1)} 1, Sentence {(1, 0), (1, 1)} 1]\<rparr>"

definition after_contradiction :: ai where
  "after_contradiction = \<lparr>height = 2, width = 3, moves_made = {(0, 0), (0, 1)},
     mines = {(0, 2), (1, 0), (1, 1), (1, 2)}, safes = {(0, 0), (0, 1)}, knowledge = []\<rparr>"

definition contradicted :: ai where
  "contradicted = \<lparr>height = 2, width = 3, moves_made = {(0, 0), (0, 1)},
     mines = {(0, 2), (1, 0), (1, 1), (1, 2)}, safes = {(0, 0), (0, 1)},
     knowledge = [Sentence {} (- 1), Sentence {} 0]\<rparr>"

subsection \<open>Clean states and the closed form of a pass\<close>

text \<open>
  A state is clean when no sentence names a cell that is already known safe or known to
  be a mine, and every sentence has finitely many cells. On a clean state one pass marks
  the cells \<open>found_mines\<close> and \<open>found_safes\<close>, keeps the reduced sentences that still
  have cells (\<open>pruned\<close>) and appends the inferences drawn from them.
\<close>

definition clean :: "ai \<Rightarrow> bool" where
  "clean s \<longleftrightarrow>
     (\<forall>sen \<in> set (knowledge s). finite (cells sen) \<and> cells sen \<inter> (safes s \<union> mines s) = {})"

definition found_mines :: "ai \<Rightarrow> cell set" where
  "found_mines s = \<Union> (known_mines ` set (knowledge s))"

definition found_safes :: "ai \<Rightarrow> cell set" where
  "found_safes s = \<Union> (known_safes ` set (knowledge s))"

definition pruned :: "ai \<Rightarrow> sentence list" where
  "pruned s = filter (\<lambda>sen. cells sen \<noteq> {})
     (map (reduce_by (found_safes s) (found_mines s)) (knowledge s))"

definition changed :: "ai \<Rightarrow> bool" where
  "changed s \<longleftrightarrow> found_mines s \<noteq> {} \<or> found_safes s \<noteq> {}
     \<or> length (pruned s) < length (knowledge s)"

subsection \<open>The measure of the loop\<close>

text \<open>
  The cells named by the knowledge base, the sentences over a set of cells that the
  subset inference can build, and the order in which a pass on a clean state goes down:
  first the number of cells named, then the number of sentences without cells plus the
  number of sentences over the named cells that are not yet in the knowledge base.
\<close>

definition universe :: "ai \<Rightarrow> cell set" where
  "universe s = \<Union> (cells ` set (knowledge s))"

definition space :: "cell set \<Rightarrow> sentence set" where
  "space U = {sen. cells sen \<subseteq> U \<and> cells sen \<noteq> {} \<and> 0 \<le> count sen
                 \<and> count sen \<le> int (card (cells sen))}"

definition empties :: "ai \<Rightarrow> nat" where
  "empties s = length (filter (\<lambda>sen. cells sen = {}) (knowledge s))"

definition todo :: "ai \<Rightarrow> nat" where
  "todo s = empties s + card (space (universe s) - set (knowledge s))"

definition pass_order :: "(ai \<times> ai) set" where
  "pass_order = inv_image (less_than <*lex*> less_than) (\<lambda>s. (card (universe s), todo s))"

subsection \<open>The state on which the loop starts, and the reachable states\<close>

text \<open>
  \<open>observed s c cnt\<close> is the state of \<^verbatim>\<open>add_knowledge\<close> when it enters the loop: the move
  recorded, the cell marked safe, the sentence of the observation added. \<open>neighbors\<close>
  is the set of the cells the neighbourhood loops visit inside the bounds. A step is a
  call of one of the three operations that change the engine, with any arguments; the
  reachable states are those that calls lead to from a new engine.
\<close>

definition observed :: "ai \<Rightarrow> cell \<Rightarrow> int \<Rightarrow> ai" where
  "observed s c cnt =
     (let s1 = s\<lparr>moves_made := insert c (moves_made s)\<rparr>;
          s2 = mark_safe s1 c
      in add_sentence s2 (collect_neighbors s2 c cnt))"

definition neighbors :: "int \<Rightarrow> int \<Rightarrow> cell \<Rightarrow> cell set" where
  "neighbors h w c =
     {n \<in> set (around c). n \<noteq> c \<and> 0 \<le> fst n \<and> fst n < h \<and> 0 \<le> snd n \<and> snd n < w}"

inductive step :: "ai \<Rightarrow> ai \<Rightarrow> bool" where
  observe: "add_knowledge s c n = Some s' \<Longrightarrow> step s s'"
| mine: "step s (mark_mine s c)"
| safe: "step s (mark_safe s c)"

inductive reachable :: "ai \<Rightarrow> bool" where
  init: "reachable (init_ai h w)"
| call: "reachable s \<Longrightarrow> step s s' \<Longrightarrow> reachable s'"

definition tidy :: "ai \<Rightarrow> bool" where
  "tidy s \<longleftrightarrow> clean s \<and> moves_made s \<subseteq> safes s"

definition inside :: "ai \<Rightarrow> cell \<Rightarrow> cell \<Rightarrow> bool" where
  "inside s c n \<longleftrightarrow> n \<noteq> c \<and> 0 \<le> fst n \<and> fst n < height s \<and> 0 \<le> snd n \<and> snd n < width s"

subsection \<open>Observations of one board\<close>

text \<open>
  The contract of the board: an observation is made at a cell that is not a mine and
  reports the number \<^verbatim>\<open>nearby_mines\<close> gives for the set \<open>M\<close> of the mines of the board;
  \<^verbatim>\<open>mark_mine\<close> is called for mines and \<^verbatim>\<open>mark_safe\<close> for the other cells only.
  \<open>step_on h w M\<close> is one such call, \<open>reachable_on h w M\<close> the states such calls lead to
  from a new engine of the size of the board, and \<open>loop_on h w M\<close> the states in which
  a pass of the loop starts during such a call of \<^verbatim>\<open>add_knowledge\<close>.
  A sentence holds on \<open>M\<close> when its count is the number of its cells that are mines, and
  a state is sound for the board when what it records is true of \<open>M\<close>. \<open>marked s\<close> is the
  state of a pass after its two marking loops, on which the knowledge base is rebuilt.
\<close>

inductive step_on :: "int \<Rightarrow> int \<Rightarrow> cell set \<Rightarrow> ai \<Rightarrow> ai \<Rightarrow> bool" for h w M where
  observe: "c \<notin> M \<Longrightarrow> add_knowledge s c (nearby_mines h w M c) = Some s' \<Longrightarrow> step_on h w M s s'"
| mine: "c \<in> M \<Longrightarrow> step_on h w M s (mark_mine s c)"
| safe: "c \<notin> M \<Longrightarrow> step_on h w M s (mark_safe s c)"

inductive reachable_on :: "int \<Rightarrow> int \<Rightarrow> cell set \<Rightarrow> ai \<Rightarrow> bool" for h w M where
  init: "reachable_on h w M (init_ai h w)"
| call: "reachable_on h w M s \<Longrightarrow> step_on h w M s s' \<Longrightarrow> reachable_on h w M s'"


definition holds :: "cell set \<Rightarrow> sentence \<Rightarrow> bool" where
  "holds M sen \<longleftrightarrow> finite (cells sen) \<and> count sen = int (card (cells sen \<inter> M))"

definition sound :: "int \<Rightarrow> int \<Rightarrow> cell set \<Rightarrow> ai \<Rightarrow> bool" where
  "sound h w M s \<longleftrightarrow> height s = h \<and> width s = w \<and> mines s \<subseteq> M \<and> safes s \<inter> M = {}
     \<and> moves_made s \<inter> M = {} \<and> clean s \<and> (\<forall>sen \<in> set (knowledge s). holds M sen)"

definition marked :: "ai \<Rightarrow> ai" where
  "marked s = (case collect_known (knowledge s) of (new_mines, new_safes) \<Rightarrow>
     fst (mark_new_safes new_safes (mark_new_mines new_mines (s, False))))"

definition grows :: "ai \<Rightarrow> ai \<Rightarrow> bool" where
  "grows s s' \<longleftrightarrow> moves_made s \<subseteq> moves_made s' \<and> safes s \<subseteq> safes s' \<and> mines s \<subseteq> mines s'"

subsection \<open>The sentence of an observation\<close>

text \<open>
  \<open>expected s c cnt\<close> is the sentence \<^verbatim>\<open>add_knowledge(c, cnt)\<close> builds in the state \<open>s\<close>
  from the neighbours of \<open>c\<close>. A state is settled for an observation when the cell is
  a recorded move and that sentence has no cells or is already in the knowledge base.
\<close>

definition expected :: "ai \<Rightarrow> cell \<Rightarrow> int \<Rightarrow> sentence" where
  "expected s c cnt = (case collect_neighbors s c cnt of (nbs, cnt') \<Rightarrow> Sentence nbs cnt')"

definition settled :: "ai \<Rightarrow> cell \<Rightarrow> int \<Rightarrow> bool" where
  "settled s c cnt \<longleftrightarrow> tidy s \<and> c \<in> moves_made s
     \<and> (cells (expected s c cnt) = {} \<or> expected s c cnt \<in> set (knowledge s))"

text \<open>A state whose knowledge base is \<open>{A, B, C} = 1\<close> and \<open>{A, B} = 1\<close>, on a 1 by 3 board.\<close>

definition three_cells :: ai where
  "three_cells = (init_ai 1 3)\<lparr>knowledge :=
     [Sentence {(0, 0), (0, 1), (0, 2)} 1, Sentence {(0, 0), (0, 1)} 1]\<rparr>"

section \<open>Iteration over a set\<close>

lemma set_set_iter: "finite A \<Longrightarrow> set (set_iter A) = A"
  by (simp add: set_iter_def)

lemma distinct_set_iter: "distinct (set_iter A)"
  by (simp add: set_iter_def)

lemma find_Some_mem: "find P xs = Some x \<Longrightarrow> x \<in> set xs \<and> P x"
  by (induction xs) (auto split: if_splits)

section \<open>What the loops of a pass compute\<close>

text \<open>
  Each loop over a set is a fold over some enumeration of it. The lemmas give the result
  in terms of the set of the enumerated elements only, so it does not depend on the order
  of the visit.
\<close>

lemma collect_known_fold:
  "fold (\<lambda>sen (nm, ns). (nm \<union> known_mines sen, ns \<union> known_safes sen)) kb (A, B)
   = (A \<union> \<Union> (known_mines ` set kb), B \<union> \<Union> (known_safes ` set kb))"
  by (induction kb arbitrary: A B) auto

lemma collect_known_eq:
  "collect_known kb = (\<Union> (known_mines ` set kb), \<Union> (known_safes ` set kb))"
  by (simp add: collect_known_def collect_known_fold)

lemma finite_known_mines: "finite (known_mines sen)"
  by (auto simp: known_mines_def intro: card_ge_0_finite)

lemma finite_known_safes: "finite (known_safes sen)"
  by (auto simp: known_safes_def intro: card_ge_0_finite)

lemma reduce_by_mark_mine:
  assumes "c \<notin> M" and "finite D"
  shows "reduce_by {} (D - insert c M) (sentence_mark_mine sen c) = reduce_by {} (insert c D - M) sen"
proof (cases "c \<in> cells sen")
  case False
  then have "cells sen \<inter> (D - insert c M) = cells sen \<inter> (insert c D - M)"
            "cells sen - (D - insert c M) = cells sen - (insert c D - M)" by auto
  with False show ?thesis by (simp add: reduce_by_def sentence_mark_mine_def)
next
  case True
  let ?R = "(cells sen - {c}) \<inter> (D - insert c M)"
  have fin: "finite ?R" using assms(2) by simp
  have eq: "cells sen \<inter> (insert c D - M) = insert c ?R"
    using True assms(1) by auto
  have "c \<notin> ?R" by simp
  then have card: "card (cells sen \<inter> (insert c D - M)) = Suc (card ?R)"
    unfolding eq using fin by simp
  have cells: "cells sen - {c} - (D - insert c M) = cells sen - (insert c D - M)"
    using assms(1) by auto
  show ?thesis
    using True card cells by (simp add: reduce_by_def sentence_mark_mine_def)
qed

lemma mines_step_simps:
  "c \<in> mines s \<Longrightarrow> mines_step c (s, u) = (s, u)"
  "c \<notin> mines s \<Longrightarrow> mines_step c (s, u) = (mark_mine s c, True)"
  by (simp_all add: mines_step_def)

lemma safes_step_simps:
  "c \<in> safes s \<Longrightarrow> safes_step c (s, u) = (s, u)"
  "c \<notin> safes s \<Longrightarrow> safes_step c (s, u) = (mark_safe s c, True)"
  by (simp_all add: safes_step_def)

lemma remove_step_simps:
  "c \<in> safes s \<Longrightarrow> remove_step s c (R, n) = (insert c R, n)"
  "c \<notin> safes s \<Longrightarrow> c \<in> mines s \<Longrightarrow> remove_step s c (R, n) = (insert c R, n - 1)"
  "c \<notin> safes s \<Longrightarrow> c \<notin> mines s \<Longrightarrow> remove_step s c (R, n) = (R, n)"
  by (simp_all add: remove_step_def)

lemma fold_mines_step:
  "fold mines_step xs (s, u) =
     (s\<lparr>mines := mines s \<union> set xs,
        knowledge := map (reduce_by {} (set xs - mines s)) (knowledge s)\<rparr>,
      u \<or> \<not> set xs \<subseteq> mines s)"
proof (induction xs arbitrary: s u)
  case Nil
  show ?case by (simp add: reduce_by_def)
next
  case (Cons c xs)
  show ?case
  proof (cases "c \<in> mines s")
    case True
    then have "insert c (set xs) - mines s = set xs - mines s"
              "mines s \<union> insert c (set xs) = mines s \<union> set xs" by auto
    with True show ?thesis by (simp add: mines_step_simps Cons.IH)
  next
    case False
    have "map (reduce_by {} (set xs - insert c (mines s))) (map (\<lambda>sen. sentence_mark_mine sen c) (knowledge s))
          = map (reduce_by {} (insert c (set xs) - mines s)) (knowledge s)"
      using reduce_by_mark_mine [OF False, of "set xs"] by simp
    with False show ?thesis
      by (simp add: mines_step_simps Cons.IH mark_mine_def)
  qed
qed

lemma reduce_by_mark_safe:
  assumes "c \<notin> S"
  shows "reduce_by (D - insert c S) {} (sentence_mark_safe sen c) = reduce_by (insert c D - S) {} sen"
proof -
  have "cells sen - {c} - (D - insert c S) = cells sen - (insert c D - S)" using assms by auto
  moreover have "c \<notin> cells sen \<Longrightarrow> cells sen - (D - insert c S) = cells sen - (insert c D - S)"
    by auto
  ultimately show ?thesis
    by (simp add: reduce_by_def sentence_mark_safe_def)
qed

lemma fold_safes_step:
  "fold safes_step xs (s, u) =
     (s\<lparr>safes := safes s \<union> set xs,
        knowledge := map (reduce_by (set xs - safes s) {}) (knowledge s)\<rparr>,
      u \<or> \<not> set xs \<subseteq> safes s)"
proof (induction xs arbitrary: s u)
  case Nil
  show ?case by (simp add: reduce_by_def)
next
  case (Cons c xs)
  show ?case
  proof (cases "c \<in> safes s")
    case True
    then have "insert c (set xs) - safes s = set xs - safes s"
              "safes s \<union> insert c (set xs) = safes s \<union> set xs" by auto
    with True show ?thesis by (simp add: safes_step_simps Cons.IH)
  next
    case False
    have "map (reduce_by (set xs - insert c (safes s)) {}) (map (\<lambda>sen. sentence_mark_safe sen c) (knowledge s))
          = map (reduce_by (insert c (set xs) - safes s) {}) (knowledge s)"
      using reduce_by_mark_safe [OF False, of "set xs"] by simp
    with False show ?thesis
      by (simp add: safes_step_simps Cons.IH mark_safe_def)
  qed
qed

lemma mark_new_mines_eq:
  "finite D \<Longrightarrow> mark_new_mines D (s, u) =
     (s\<lparr>mines := mines s \<union> D, knowledge := map (reduce_by {} (D - mines s)) (knowledge s)\<rparr>,
      u \<or> \<not> D \<subseteq> mines s)"
  by (simp add: mark_new_mines_def fold_mines_step set_set_iter)

lemma mark_new_safes_eq:
  "finite D \<Longrightarrow> mark_new_safes D (s, u) =
     (s\<lparr>safes := safes s \<union> D, knowledge := map (reduce_by (D - safes s) {}) (knowledge s)\<rparr>,
      u \<or> \<not> D \<subseteq> safes s)"
  by (simp add: mark_new_safes_def fold_safes_step set_set_iter)

lemma fold_remove_step:
  "distinct xs \<Longrightarrow> fold (remove_step s) xs (R, n) =
     (R \<union> (set xs \<inter> (safes s \<union> mines s)), n - int (card (set xs \<inter> (mines s - safes s))))"
proof (induction xs arbitrary: R n)
  case Nil
  show ?case by simp
next
  case (Cons c xs)
  then have d: "distinct xs" and nc: "c \<notin> set xs" by simp_all
  have A: "c \<in> mines s \<Longrightarrow> c \<notin> safes s \<Longrightarrow>
          card (insert c (set xs) \<inter> (mines s - safes s)) = Suc (card (set xs \<inter> (mines s - safes s)))"
  proof -
    assume "c \<in> mines s" "c \<notin> safes s"
    then have "insert c (set xs) \<inter> (mines s - safes s) = insert c (set xs \<inter> (mines s - safes s))"
      by auto
    then show ?thesis using nc by simp
  qed
  have B: "c \<notin> mines s - safes s \<Longrightarrow>
          insert c (set xs) \<inter> (mines s - safes s) = set xs \<inter> (mines s - safes s)" by auto
  show ?case
  proof (cases "c \<in> safes s")
    case True
    with B show ?thesis by (simp add: remove_step_simps Cons.IH [OF d]) 
  next
    case False
    show ?thesis
    proof (cases "c \<in> mines s")
      case True
      with False A show ?thesis by (simp add: remove_step_simps Cons.IH [OF d])
    next
      case f2: False
      with False B show ?thesis by (simp add: remove_step_simps Cons.IH [OF d])
    qed
  qed
qed

lemma reduce_sentence_eq:
  assumes "finite (cells sen)"
  shows "reduce_sentence s sen = reduce_by (safes s) (mines s - safes s) sen"
proof -
  have "cells sen - cells sen \<inter> (safes s \<union> mines s) = cells sen - (safes s \<union> (mines s - safes s))"
    by auto
  then show ?thesis
    using assms
    by (simp add: reduce_sentence_def fold_remove_step distinct_set_iter set_set_iter reduce_by_def)
qed

lemma fold_rebuild_step:
  "fold (rebuild_step s) kb acc =
     acc @ filter (\<lambda>sen. card (cells sen) > 0) (map (reduce_sentence s) kb)"
  by (induction kb arbitrary: acc) (simp_all add: rebuild_step_def Let_def)

lemma rebuild_eq:
  "rebuild s = filter (\<lambda>sen. card (cells sen) > 0) (map (reduce_sentence s) (knowledge s))"
  by (simp add: rebuild_def fold_rebuild_step)

lemma infer_step_eq:
  "infer_step kb s1 s2 (acc, u) =
     (if inferable kb s1 s2 \<and> subtract s1 s2 \<notin> set acc then (acc @ [subtract s1 s2], True)
      else (acc, u))"
proof (cases "s1 = s2")
  case True
  then show ?thesis by (simp add: infer_step_def inferable_def)
next
  case False
  show ?thesis
  proof (cases "cells s1 \<subset> cells s2")
    case True
    then have "cells s1 \<subseteq> cells s2" "cells s1 \<noteq> cells s2" by auto
    with False True show ?thesis
      by (simp add: infer_step_def inferable_def subtract_def Let_def)
  next
    case f: False
    then have "\<not> cells s1 \<subseteq> cells s2 \<or> cells s1 = cells s2" by auto
    with False f show ?thesis
      by (auto simp add: infer_step_def inferable_def)
  qed
qed

lemma fold_infer_step:
  "fold (infer_step kb s1) ys (acc, u) = (acc', u') \<Longrightarrow>
     set acc' = set acc \<union> subtract s1 ` {s2 \<in> set ys. inferable kb s1 s2}
     \<and> (distinct acc \<longrightarrow> distinct acc')
     \<and> (u' \<longleftrightarrow> u \<or> set acc' \<noteq> set acc)"
proof (induction ys arbitrary: acc u)
  case Nil
  then show ?case by simp
next
  case (Cons y ys)
  show ?case
  proof (cases "inferable kb s1 y \<and> subtract s1 y \<notin> set acc")
    case True
    with Cons.prems have "fold (infer_step kb s1) ys (acc @ [subtract s1 y], True) = (acc', u')"
      by (simp add: infer_step_eq)
    from Cons.IH [OF this]
    have 1: "set acc' = set (acc @ [subtract s1 y]) \<union> subtract s1 ` {s2 \<in> set ys. inferable kb s1 s2}"
      and 2: "distinct (acc @ [subtract s1 y]) \<longrightarrow> distinct acc'"
      and 3: "u'" by simp_all
    have "{s2 \<in> set (y # ys). inferable kb s1 s2} = insert y {s2 \<in> set ys. inferable kb s1 s2}"
      using True by auto
    then have a: "set acc' = set acc \<union> subtract s1 ` {s2 \<in> set (y # ys). inferable kb s1 s2}"
      using 1 by simp
    have b: "distinct acc \<longrightarrow> distinct acc'" using 2 True by simp
    have "subtract s1 y \<in> set acc'" using 1 by simp
    then have c: "set acc' \<noteq> set acc" using True by blast
    show ?thesis using a b c 3 by blast
  next
    case False
    with Cons.prems have "fold (infer_step kb s1) ys (acc, u) = (acc', u')"
      by (simp add: infer_step_eq)
    from Cons.IH [OF this]
    have 1: "set acc' = set acc \<union> subtract s1 ` {s2 \<in> set ys. inferable kb s1 s2}"
      and 2: "distinct acc \<longrightarrow> distinct acc'"
      and 3: "u' \<longleftrightarrow> u \<or> set acc' \<noteq> set acc" by simp_all
    have "set acc \<union> subtract s1 ` {s2 \<in> set (y # ys). inferable kb s1 s2}
          = set acc \<union> subtract s1 ` {s2 \<in> set ys. inferable kb s1 s2}"
    proof (cases "inferable kb s1 y")
      case True
      with False have "subtract s1 y \<in> set acc" by simp
      moreover have "{s2 \<in> set (y # ys). inferable kb s1 s2} = insert y {s2 \<in> set ys. inferable kb s1 s2}"
        using True by auto
      ultimately show ?thesis by auto
    next
      case f: False
      then have "{s2 \<in> set (y # ys). inferable kb s1 s2} = {s2 \<in> set ys. inferable kb s1 s2}"
        by auto
      then show ?thesis by simp
    qed
    with 1 2 3 show ?thesis by simp
  qed
qed

section \<open>The queries of a sentence\<close>

text \<open>
  Claim C7. \<^verbatim>\<open>known_mines\<close> gives all the cells of the sentence when the count is
  positive and equals the number of cells, and the empty set otherwise; \<^verbatim>\<open>known_safes\<close>
  gives all the cells when the count is zero and there is at least one cell, and the
  empty set otherwise. For two different cells \<open>A\<close> and \<open>B\<close>: count 2 makes both known
  mines, count 0 makes both known safes, count 1 makes both answers empty. Both queries
  are functions of the sentence's value that return a fresh set (the source returns a
  copy), so there is no state for them to change.
\<close>

theorem known_mines_known_safes_spec:
  "known_mines sen =
     (if count sen > 0 \<and> count sen = int (card (cells sen)) then cells sen else {})
   \<and> known_safes sen = (if count sen = 0 \<and> card (cells sen) > 0 then cells sen else {})
   \<and> (A \<noteq> B \<longrightarrow>
        known_mines (Sentence {A, B} 2) = {A, B} \<and> known_safes (Sentence {A, B} 0) = {A, B}
        \<and> known_mines (Sentence {A, B} 1) = {} \<and> known_safes (Sentence {A, B} 1) = {})"
  by (auto simp: known_mines_def known_safes_def Sentence_def)

theorem known_mines_known_safes_spec_witness:
  "((0, 0) :: cell) \<noteq> (0, 1)
   \<and> known_mines (Sentence {(0, 0), (0, 1)} 2) = {(0, 0), (0, 1)}
   \<and> known_safes (Sentence {(0, 0), (0, 1)} 0) = {(0, 0), (0, 1)}
   \<and> known_mines (Sentence {(0, 0), (0, 1)} 1) = {}
   \<and> known_safes (Sentence {(0, 0), (0, 1)} 1) = {}"
proof -
  have ne: "((0, 0) :: cell) \<noteq> (0, 1)" by simp
  from known_mines_known_safes_spec [of "Sentence {(0, 0), (0, 1)} 2" "(0, 0)" "(0, 1)"] ne
  show ?thesis by blast
qed

section \<open>Marking a cell in the engine\<close>

text \<open>
  Claim C8. \<^verbatim>\<open>MinesweeperAI.mark_mine(X)\<close> adds \<open>X\<close> to the mines; every sentence that
  contained \<open>X\<close> loses it and has its count lowered by exactly one. \<^verbatim>\<open>mark_safe(X)\<close>
  adds \<open>X\<close> to the safes; every sentence that contained \<open>X\<close> loses it and keeps its
  count. A sentence that did not contain \<open>X\<close> is the same after either call. The
  knowledge base keeps its length and its order.
\<close>

theorem mark_propagation:
  "mines (mark_mine s X) = insert X (mines s)
   \<and> length (knowledge (mark_mine s X)) = length (knowledge s)
   \<and> (\<forall>i < length (knowledge s).
        (X \<in> cells (knowledge s ! i) \<longrightarrow>
           cells (knowledge (mark_mine s X) ! i) = cells (knowledge s ! i) - {X}
           \<and> count (knowledge (mark_mine s X) ! i) = count (knowledge s ! i) - 1)
        \<and> (X \<notin> cells (knowledge s ! i) \<longrightarrow> knowledge (mark_mine s X) ! i = knowledge s ! i))
   \<and> safes (mark_safe s X) = insert X (safes s)
   \<and> length (knowledge (mark_safe s X)) = length (knowledge s)
   \<and> (\<forall>i < length (knowledge s).
        (X \<in> cells (knowledge s ! i) \<longrightarrow>
           cells (knowledge (mark_safe s X) ! i) = cells (knowledge s ! i) - {X}
           \<and> count (knowledge (mark_safe s X) ! i) = count (knowledge s ! i))
        \<and> (X \<notin> cells (knowledge s ! i) \<longrightarrow> knowledge (mark_safe s X) ! i = knowledge s ! i))"
  by (simp add: mark_mine_def mark_safe_def sentence_mark_mine_def sentence_mark_safe_def)

theorem mark_propagation_witness:
  "(0::nat) < length (knowledge two_sentences) \<and> (1::nat) < length (knowledge two_sentences)
   \<and> (0, 0) \<in> cells (knowledge two_sentences ! 0) \<and> (0, 0) \<notin> cells (knowledge two_sentences ! 1)
   \<and> knowledge (mark_mine two_sentences (0, 0)) = [Sentence {(0, 1)} 0, Sentence {(1, 1)} 1]
   \<and> knowledge (mark_safe two_sentences (0, 0)) = [Sentence {(0, 1)} 1, Sentence {(1, 1)} 1]"
proof -
  have len: "length (knowledge two_sentences) = 2"
    by (simp add: two_sentences_def)
  have mem: "(0, 0) \<in> cells (knowledge two_sentences ! 0)"
            "(0, 0) \<notin> cells (knowledge two_sentences ! 1)"
    by (simp_all add: two_sentences_def Sentence_def)
  note P = mark_propagation [of two_sentences "(0, 0)"]
  have m0: "cells (knowledge (mark_mine two_sentences (0, 0)) ! 0) = {(0, 1)}"
       "count (knowledge (mark_mine two_sentences (0, 0)) ! 0) = 0"
       "knowledge (mark_mine two_sentences (0, 0)) ! 1 = Sentence {(1, 1)} 1"
       "length (knowledge (mark_mine two_sentences (0, 0))) = 2"
    using P len mem by (auto simp: two_sentences_def Sentence_def)
  have s0: "cells (knowledge (mark_safe two_sentences (0, 0)) ! 0) = {(0, 1)}"
       "count (knowledge (mark_safe two_sentences (0, 0)) ! 0) = 1"
       "knowledge (mark_safe two_sentences (0, 0)) ! 1 = Sentence {(1, 1)} 1"
       "length (knowledge (mark_safe two_sentences (0, 0))) = 2"
    using P len mem by (auto simp: two_sentences_def Sentence_def)
  have "knowledge (mark_mine two_sentences (0, 0)) = [Sentence {(0, 1)} 0, Sentence {(1, 1)} 1]"
    using m0 by (intro nth_equalityI) (auto simp: Sentence_def less_Suc_eq numeral_2_eq_2)
  moreover have
    "knowledge (mark_safe two_sentences (0, 0)) = [Sentence {(0, 1)} 1, Sentence {(1, 1)} 1]"
    using s0 by (intro nth_equalityI) (auto simp: Sentence_def less_Suc_eq numeral_2_eq_2)
  ultimately show ?thesis using len mem by simp
qed

section \<open>Choosing a safe move\<close>

text \<open>
  Claim C10. \<^verbatim>\<open>make_safe_move\<close> returns a cell only if that cell is in \<open>safes\<close> and not
  in \<open>moves_made\<close>; it returns a cell whenever such a cell exists; it returns \<open>None\<close>
  exactly when no such cell exists. \<open>None\<close> is an ordinary result value. The function
  reads the state and returns only the move: the state after the call is the state
  before it.
\<close>

theorem make_safe_move_spec:
  assumes "finite (safes s)"
  shows "(\<forall>c. make_safe_move s = Some c \<longrightarrow> c \<in> safes s \<and> c \<notin> moves_made s)
         \<and> ((\<exists>c. c \<in> safes s \<and> c \<notin> moves_made s) \<longrightarrow> make_safe_move s \<noteq> None)
         \<and> (make_safe_move s = None \<longleftrightarrow> \<not> (\<exists>c. c \<in> safes s \<and> c \<notin> moves_made s))"
proof -
  have S: "set (set_iter (safes s)) = safes s"
    using assms by (rule set_set_iter)
  have "c \<in> safes s \<and> c \<notin> moves_made s" if "make_safe_move s = Some c" for c
    using find_Some_mem [of "\<lambda>safe_cell. safe_cell \<notin> moves_made s" "set_iter (safes s)" c] that S
    by (simp add: make_safe_move_def)
  moreover have "make_safe_move s = None \<longleftrightarrow> \<not> (\<exists>c. c \<in> safes s \<and> c \<notin> moves_made s)"
    unfolding make_safe_move_def find_None_iff S by blast
  ultimately show ?thesis by blast
qed

theorem make_safe_move_spec_witness:
  "finite (safes probed_corner) \<and> make_safe_move probed_corner = Some (0, 1)
   \<and> (0, 1) \<in> safes probed_corner \<and> (0, 1) \<notin> moves_made probed_corner
   \<and> finite (safes (init_ai 2 2)) \<and> make_safe_move (init_ai 2 2) = None"
proof -
  have f: "finite (safes probed_corner)" "finite (safes (init_ai 2 2))"
    by (simp_all add: probed_corner_def init_ai_def)
  have v: "make_safe_move probed_corner = Some (0, 1)" "make_safe_move (init_ai 2 2) = None"
    by code_simp+
  show ?thesis
    using make_safe_move_spec [OF f(1)] make_safe_move_spec [OF f(2)] f v by simp
qed

section \<open>The subset inference\<close>

lemma fold_infer_outer:
  "fold (\<lambda>s1 acc. fold (infer_step kb s1) kb acc) xs (acc, u) = (acc', u') \<Longrightarrow>
     set acc' = set acc \<union> (\<Union>s1 \<in> set xs. subtract s1 ` {s2 \<in> set kb. inferable kb s1 s2})
     \<and> (distinct acc \<longrightarrow> distinct acc')
     \<and> (u' \<longleftrightarrow> u \<or> set acc' \<noteq> set acc)"
proof (induction xs arbitrary: acc u)
  case Nil
  then show ?case by simp
next
  case (Cons x xs)
  obtain a1 u1 where mid: "fold (infer_step kb x) kb (acc, u) = (a1, u1)"
    by (cases "fold (infer_step kb x) kb (acc, u)")
  with Cons.prems have rest: "fold (\<lambda>s1 acc. fold (infer_step kb s1) kb acc) xs (a1, u1) = (acc', u')"
    by simp
  from fold_infer_step [OF mid]
  have A1: "set a1 = set acc \<union> subtract x ` {s2 \<in> set kb. inferable kb x s2}"
    and A2: "distinct acc \<longrightarrow> distinct a1"
    and A3: "u1 \<longleftrightarrow> u \<or> set a1 \<noteq> set acc" by simp_all
  from Cons.IH [OF rest]
  have B1: "set acc' = set a1 \<union> (\<Union>s1 \<in> set xs. subtract s1 ` {s2 \<in> set kb. inferable kb s1 s2})"
    and B2: "distinct a1 \<longrightarrow> distinct acc'"
    and B3: "u' \<longleftrightarrow> u1 \<or> set acc' \<noteq> set a1" by simp_all
  have s: "set acc' = set acc \<union> (\<Union>s1 \<in> set (x # xs). subtract s1 ` {s2 \<in> set kb. inferable kb s1 s2})"
    unfolding B1 A1 by (simp add: Un_assoc)
  have sub: "set acc \<subseteq> set a1" "set a1 \<subseteq> set acc'" using A1 B1 by blast+
  have f: "u' \<longleftrightarrow> u \<or> set acc' \<noteq> set acc"
    using A3 B3 sub by blast
  show ?case using s A2 B2 f by blast
qed

lemma infer_result:
  "set (fst (infer kb u)) = (\<Union>s1 \<in> set kb. subtract s1 ` {s2 \<in> set kb. inferable kb s1 s2})"
  "distinct (fst (infer kb u))"
  "snd (infer kb u) \<longleftrightarrow> u \<or> fst (infer kb u) \<noteq> []"
  using fold_infer_outer [of kb kb "[]" u "fst (infer kb u)" "snd (infer kb u)"]
  by (simp_all add: infer_def)

lemma mem_infer:
  "new \<in> set (fst (infer kb u)) \<longleftrightarrow>
     (\<exists>s1 \<in> set kb. \<exists>s2 \<in> set kb. inferable kb s1 s2 \<and> new = subtract s1 s2)"
  unfolding infer_result(1) by blast

lemma infer_not_in_kb: "new \<in> set (fst (infer kb u)) \<Longrightarrow> new \<notin> set kb"
  unfolding mem_infer inferable_def by blast

lemma fold_infer_step_flag:
  "fold (infer_step kb s1) ys (acc, u) =
     (fst (fold (infer_step kb s1) ys (acc, False)),
      u \<or> snd (fold (infer_step kb s1) ys (acc, False)))"
proof (induction ys arbitrary: acc u)
  case Nil
  show ?case by simp
next
  case (Cons y ys)
  show ?case
  proof (cases "inferable kb s1 y \<and> subtract s1 y \<notin> set acc")
    case True
    let ?R = "fold (infer_step kb s1) ys (acc @ [subtract s1 y], True)"
    have step: "fold (infer_step kb s1) (y # ys) (acc, b) = ?R" for b
      using True by (simp add: infer_step_eq)
    have "snd ?R" using Cons.IH [of "acc @ [subtract s1 y]" True] by (metis snd_conv)
    then have "?R = (fst ?R, u \<or> snd ?R)" by (metis prod.collapse)
    then show ?thesis unfolding step .
  next
    case False
    have "infer_step kb s1 y (acc, b) = (acc, b)" for b
      unfolding infer_step_eq using False by (rule if_not_P)
    then have step: "fold (infer_step kb s1) (y # ys) (acc, b) = fold (infer_step kb s1) ys (acc, b)" for b
      by simp
    show ?thesis unfolding step by (rule Cons.IH)
  qed
qed

lemma fold_infer_outer_flag:
  "fold (\<lambda>s1 acc. fold (infer_step kb s1) kb acc) xs (acc, u) =
     (fst (fold (\<lambda>s1 acc. fold (infer_step kb s1) kb acc) xs (acc, False)),
      u \<or> snd (fold (\<lambda>s1 acc. fold (infer_step kb s1) kb acc) xs (acc, False)))"
proof (induction xs arbitrary: acc u)
  case Nil
  show ?case by simp
next
  case (Cons x xs)
  let ?F = "\<lambda>s1 acc. fold (infer_step kb s1) kb acc"
  obtain a1 u1 where mid: "fold (infer_step kb x) kb (acc, False) = (a1, u1)"
    by (cases "fold (infer_step kb x) kb (acc, False)")
  have midu: "fold (infer_step kb x) kb (acc, u) = (a1, u \<or> u1)"
    using fold_infer_step_flag [of kb x kb acc u] mid by simp
  have L: "fold ?F (x # xs) (acc, u) = fold ?F xs (a1, u \<or> u1)" using midu by simp
  have R: "fold ?F (x # xs) (acc, False) = fold ?F xs (a1, u1)" using mid by simp
  have A: "fold ?F xs (a1, u \<or> u1) = (fst (fold ?F xs (a1, False)), (u \<or> u1) \<or> snd (fold ?F xs (a1, False)))"
    by (rule Cons.IH)
  have B: "fold ?F xs (a1, u1) = (fst (fold ?F xs (a1, False)), u1 \<or> snd (fold ?F xs (a1, False)))"
    by (rule Cons.IH)
  show ?case unfolding L R A B by simp
qed

lemma fst_infer: "fst (infer kb u) = fst (infer kb False)"
  using fold_infer_outer_flag [of kb kb "[]" u] by (simp add: infer_def)

lemma pass_knowledge:
  "knowledge (fst (pass s)) = rebuild (marked s) @ fst (infer (rebuild (marked s)) False)"
proof -
  obtain nm ns where ck: "collect_known (knowledge s) = (nm, ns)"
    by (cases "collect_known (knowledge s)")
  obtain s1 u1 where m1: "mark_new_mines nm (s, False) = (s1, u1)"
    by (cases "mark_new_mines nm (s, False)")
  obtain s2 u2 where m2: "mark_new_safes ns (s1, u1) = (s2, u2)"
    by (cases "mark_new_safes ns (s1, u1)")
  have mk: "marked s = s2" unfolding marked_def ck prod.case m1 m2 by simp
  define u3 where "u3 = (if length (rebuild s2) < length (knowledge s2) then True else u2)"
  obtain inf u4 where i: "infer (rebuild s2) u3 = (inf, u4)"
    by (cases "infer (rebuild s2) u3")
  have "pass s = (s2\<lparr>knowledge := rebuild s2 @ inf\<rparr>, u4)"
    unfolding pass_def ck prod.case m1 m2 Let_def u3_def [symmetric] i ..
  then have "knowledge (fst (pass s)) = rebuild s2 @ fst (infer (rebuild s2) u3)"
    using i by simp
  then show ?thesis unfolding mk fst_infer [of "rebuild s2" u3] .
qed

section \<open>Two runs on a 2 by 3 board\<close>

lemma run_corner: "add_knowledge (init_ai 2 3) (0, 0) 1 = Some after_corner"
  by code_simp

lemma run_duplicate: "add_knowledge after_corner (0, 1) 1 = Some after_duplicate"
  by code_simp

lemma run_contradiction: "add_knowledge after_corner (0, 1) 4 = Some after_contradiction"
  by code_simp

section \<open>Duplicates in the knowledge base\<close>

text \<open>
  Claim C6, as stated, fails: on a 2 by 3 board, probing \<open>(0, 0)\<close> with count 1 and then
  \<open>(0, 1)\<close> with count 1 (the counts of a board whose only mine is at \<open>(1, 0)\<close>) leaves
  the sentence \<open>{(1, 0), (1, 1)} = 1\<close> twice in the knowledge base: the second
  observation's sentence shrinks to it when \<open>(0, 2)\<close> and \<open>(1, 2)\<close> are found safe.
\<close>

theorem duplicates_counterexample:
  "add_knowledge (init_ai 2 3) (0, 0) 1 = Some after_corner
   \<and> add_knowledge after_corner (0, 1) 1 = Some after_duplicate
   \<and> \<not> distinct (knowledge after_duplicate)"
  using run_corner run_duplicate by (simp add: after_duplicate_def)

text \<open>
  Claim C6, amended. A sentence is appended to the knowledge base (the sentence of a new
  observation, or an inferred one) only when no equal sentence is in the knowledge base
  at that moment nor among the sentences inferred earlier in the same pass. The
  rebuilding of the knowledge base keeps every sentence that still has cells, once per
  entry: sentences that become equal when cells are removed from them are both kept.
  A pass leaves the rebuilt knowledge base followed by the inferences drawn from it.
\<close>

theorem append_only_new:
  "knowledge (add_sentence s (N, k)) =
     (if card N > 0 \<and> Sentence N k \<notin> set (knowledge s)
      then knowledge s @ [Sentence N k] else knowledge s)
   \<and> distinct (fst (infer kb u)) \<and> set (fst (infer kb u)) \<inter> set kb = {}
   \<and> rebuild s = filter (\<lambda>sen. card (cells sen) > 0) (map (reduce_sentence s) (knowledge s))
   \<and> knowledge (fst (pass s)) = rebuild (marked s) @ fst (infer (rebuild (marked s)) False)"
proof -
  have a: "knowledge (add_sentence s (N, k)) =
     (if card N > 0 \<and> Sentence N k \<notin> set (knowledge s)
      then knowledge s @ [Sentence N k] else knowledge s)"
    by (simp add: add_sentence_def Let_def)
  have b: "set (fst (infer kb u)) \<inter> set kb = {}"
    using infer_not_in_kb [of _ kb u] by blast
  show ?thesis
    using a b infer_result(2) [of kb u] rebuild_eq [of s] pass_knowledge [of s] by blast
qed

theorem append_only_new_witness:
  "knowledge (add_sentence after_corner ({(1, 0), (1, 1)}, 1))
     = knowledge after_corner @ [Sentence {(1, 0), (1, 1)} 1]
   \<and> Sentence {(1, 0), (1, 1)} 1 \<notin> set (knowledge after_corner)
   \<and> fst (infer [Sentence {(0, 0), (0, 1), (0, 2)} 1, Sentence {(0, 0), (0, 1)} 1] False)
       = [Sentence {(0, 2)} 0]
   \<and> distinct (fst (infer [Sentence {(0, 0), (0, 1), (0, 2)} 1, Sentence {(0, 0), (0, 1)} 1] False))
   \<and> set (fst (infer [Sentence {(0, 0), (0, 1), (0, 2)} 1, Sentence {(0, 0), (0, 1)} 1] False))
       \<inter> set [Sentence {(0, 0), (0, 1), (0, 2)} 1, Sentence {(0, 0), (0, 1)} 1] = {}
   \<and> rebuild after_duplicate = knowledge after_duplicate
   \<and> \<not> distinct (rebuild after_duplicate)"
proof -
  note T = append_only_new [of after_corner "{(1, 0), (1, 1)}" 1
      "[Sentence {(0, 0), (0, 1), (0, 2)} 1, Sentence {(0, 0), (0, 1)} 1]" False]
  have k: "knowledge (add_sentence after_corner ({(1, 0), (1, 1)}, 1))
     = knowledge after_corner @ [Sentence {(1, 0), (1, 1)} 1]" by code_simp
  have n: "Sentence {(1, 0), (1, 1)} 1 \<notin> set (knowledge after_corner)" by code_simp
  have i: "fst (infer [Sentence {(0, 0), (0, 1), (0, 2)} 1, Sentence {(0, 0), (0, 1)} 1] False)
       = [Sentence {(0, 2)} 0]" by code_simp
  have r: "rebuild after_duplicate = knowledge after_duplicate" by code_simp
  have d: "\<not> distinct (rebuild after_duplicate)" unfolding r by (simp add: after_duplicate_def)
  from T have "distinct (fst (infer [Sentence {(0, 0), (0, 1), (0, 2)} 1, Sentence {(0, 0), (0, 1)} 1] False))"
    and "set (fst (infer [Sentence {(0, 0), (0, 1), (0, 2)} 1, Sentence {(0, 0), (0, 1)} 1] False))
       \<inter> set [Sentence {(0, 0), (0, 1), (0, 2)} 1, Sentence {(0, 0), (0, 1)} 1] = {}"
    by blast+
  then show ?thesis using k n i r d by blast
qed

section \<open>Sentences that lose all their cells\<close>

text \<open>
  A run outside the contract of the board: on a 2 by 3 board whose corner \<open>(0, 0)\<close> was
  probed with count 1, the observation \<open>(0, 1)\<close> with count 4 (a count no board gives
  after the first one) marks the four remaining cells as mines; the earlier sentence
  \<open>{(1, 0), (1, 1)} = 1\<close> becomes the sentence with no cells and count \<open>-1\<close>, and the
  rebuilding of the knowledge base leaves it out as it leaves out the sentence with no
  cells and count 0.
\<close>

lemma empty_sentence_dropped:
  "add_knowledge (init_ai 2 3) (0, 0) 1 = Some after_corner
   \<and> add_knowledge after_corner (0, 1) 4 = Some after_contradiction
   \<and> knowledge after_contradiction = []
   \<and> cells (Sentence {} (- 1)) = {} \<and> count (Sentence {} (- 1)) \<noteq> 0
   \<and> Sentence {} (- 1) \<in> set (knowledge contradicted)
   \<and> rebuild contradicted = []"
proof -
  have "rebuild contradicted = []" by code_simp
  then show ?thesis
    using run_corner run_contradiction
    by (simp add: after_contradiction_def contradicted_def Sentence_def)
qed

section \<open>A pass on a clean state\<close>

lemma reduce_by_id: "cells sen \<inter> (S \<union> Mn) = {} \<Longrightarrow> reduce_by S Mn sen = sen"
proof -
  assume a: "cells sen \<inter> (S \<union> Mn) = {}"
  then have "cells sen - (S \<union> Mn) = cells sen" "cells sen \<inter> Mn = {}" by auto
  then show ?thesis by (simp add: reduce_by_def)
qed

lemma reduce_by_twice:
  "reduce_by S {} (reduce_by {} Mn sen) = reduce_by S Mn sen"
proof -
  have "cells sen - Mn - S = cells sen - (S \<union> Mn)" by auto
  then show ?thesis by (simp add: reduce_by_def)
qed

lemma cells_reduce_by: "cells (reduce_by S Mn sen) = cells sen - (S \<union> Mn)"
  by (simp add: reduce_by_def)

lemma found_mines_subset: "found_mines s \<subseteq> \<Union> (cells ` set (knowledge s))"
  by (auto simp: found_mines_def known_mines_def split: if_splits)

lemma found_safes_subset: "found_safes s \<subseteq> \<Union> (cells ` set (knowledge s))"
  by (auto simp: found_safes_def known_safes_def split: if_splits)

lemma finite_found: "finite (found_mines s)" "finite (found_safes s)"
  by (simp_all add: found_mines_def found_safes_def finite_known_mines finite_known_safes)

lemma clean_found_disjoint:
  assumes "clean s"
  shows "found_mines s \<inter> (safes s \<union> mines s) = {}" "found_safes s \<inter> (safes s \<union> mines s) = {}"
  using assms found_mines_subset [of s] found_safes_subset [of s]
  unfolding clean_def by blast+

lemma pass_clean:
  assumes "clean s"
  shows "pass s =
     (s\<lparr>mines := mines s \<union> found_mines s, safes := safes s \<union> found_safes s,
        knowledge := pruned s @ fst (infer (pruned s) False)\<rparr>,
      changed s \<or> fst (infer (pruned s) False) \<noteq> [])"
proof -
  let ?nm = "found_mines s" and ?ns = "found_safes s"
  note dj = clean_found_disjoint [OF assms]
  have nm: "?nm - mines s = ?nm" "?nm \<subseteq> mines s \<longleftrightarrow> ?nm = {}" using dj(1) by blast+
  have ns: "?ns - safes s = ?ns" "?ns \<subseteq> safes s \<longleftrightarrow> ?ns = {}" using dj(2) by blast+
  have ck: "collect_known (knowledge s) = (?nm, ?ns)"
    by (simp add: collect_known_eq found_mines_def found_safes_def)
  define s1 where "s1 = s\<lparr>mines := mines s \<union> ?nm, knowledge := map (reduce_by {} ?nm) (knowledge s)\<rparr>"
  have m1: "mark_new_mines ?nm (s, False) = (s1, ?nm \<noteq> {})"
    by (simp add: mark_new_mines_eq finite_found nm s1_def)
  define s2 where "s2 = s\<lparr>mines := mines s \<union> ?nm, safes := safes s \<union> ?ns,
      knowledge := map (reduce_by ?ns ?nm) (knowledge s)\<rparr>"
  have m2: "mark_new_safes ?ns (s1, ?nm \<noteq> {}) = (s2, ?nm \<noteq> {} \<or> ?ns \<noteq> {})"
    by (simp add: mark_new_safes_eq finite_found s1_def s2_def ns reduce_by_twice o_def)
  have red: "reduce_sentence s2 sen' = sen'" if "sen' \<in> set (knowledge s2)" for sen'
  proof -
    from that obtain sen where sen: "sen \<in> set (knowledge s)" "sen' = reduce_by ?ns ?nm sen"
      by (auto simp: s2_def)
    have fin: "finite (cells sen')" using sen assms by (simp add: clean_def cells_reduce_by)
    have "cells sen \<inter> (safes s \<union> mines s) = {}" using sen(1) assms by (simp add: clean_def)
    then have "cells sen' \<inter> (safes s2 \<union> (mines s2 - safes s2)) = {}"
      unfolding sen(2) cells_reduce_by by (auto simp: s2_def)
    then show ?thesis
      by (simp add: reduce_sentence_eq [OF fin] reduce_by_id)
  qed
  have fin2: "finite (cells sen')" if "sen' \<in> set (knowledge s2)" for sen'
    using that assms by (auto simp: s2_def clean_def cells_reduce_by)
  have "map (reduce_sentence s2) (knowledge s2) = knowledge s2"
    using red by (simp add: map_idI)
  then have "rebuild s2 = filter (\<lambda>sen. card (cells sen) > 0) (knowledge s2)"
    by (simp add: rebuild_eq)
  also have "\<dots> = filter (\<lambda>sen. cells sen \<noteq> {}) (knowledge s2)"
    using fin2 by (intro filter_cong) (auto simp: card_gt_0_iff)
  also have "\<dots> = pruned s" by (simp add: pruned_def s2_def)
  finally have rb: "rebuild s2 = pruned s" .
  have len: "length (knowledge s2) = length (knowledge s)" by (simp add: s2_def)
  have u3: "(if length (pruned s) < length (knowledge s2) then True else (?nm \<noteq> {} \<or> ?ns \<noteq> {}))
            = changed s"
    by (auto simp: changed_def len)
  have inf: "infer (pruned s) (changed s)
             = (fst (infer (pruned s) False), changed s \<or> fst (infer (pruned s) False) \<noteq> [])"
  proof (rule prod_eqI)
    show "fst (infer (pruned s) (changed s))
          = fst (fst (infer (pruned s) False), changed s \<or> fst (infer (pruned s) False) \<noteq> [])"
      using fst_infer [of "pruned s" "changed s"] by simp
    show "snd (infer (pruned s) (changed s))
          = snd (fst (infer (pruned s) False), changed s \<or> fst (infer (pruned s) False) \<noteq> [])"
      using infer_result(3) [of "pruned s" "changed s"] fst_infer [of "pruned s" "changed s"] by simp
  qed
  have upd: "s2\<lparr>knowledge := k\<rparr> = s\<lparr>mines := mines s \<union> ?nm, safes := safes s \<union> ?ns, knowledge := k\<rparr>" for k
    by (simp add: s2_def)
  show ?thesis
    unfolding pass_def ck prod.case m1 m2 rb Let_def u3 inf upd ..
qed

section \<open>The loop as a partial function\<close>

text \<open>
  Two ways to reason about the loop: a property kept by every pass that asks for another
  one holds in the state of the last pass, which is the state the loop returns; and the
  loop returns whenever every such pass goes down in a well-founded relation.
\<close>

lemma fixpoint_result_aux:
  assumes step: "\<And>t. I t \<Longrightarrow> snd (pass t) \<Longrightarrow> I (fst (pass t))"
    and run: "fixpoint s = Some s'"
  shows "I s \<longrightarrow> (\<exists>t. I t \<and> \<not> snd (pass t) \<and> s' = fst (pass t))"
proof (rule fixpoint.raw_induct
    [where P = "\<lambda>s s'. I s \<longrightarrow> (\<exists>t. I t \<and> \<not> snd (pass t) \<and> s' = fst (pass t))", OF _ run])
  fix f s s'
  assume IH: "\<And>x y. f x = Some y \<Longrightarrow> I x \<longrightarrow> (\<exists>t. I t \<and> \<not> snd (pass t) \<and> y = fst (pass t))"
    and eq: "(if snd (pass s) then f (fst (pass s)) else Some (fst (pass s))) = Some s'"
  show "I s \<longrightarrow> (\<exists>t. I t \<and> \<not> snd (pass t) \<and> s' = fst (pass t))"
  proof
    assume I: "I s"
    show "\<exists>t. I t \<and> \<not> snd (pass t) \<and> s' = fst (pass t)"
    proof (cases "snd (pass s)")
      case True
      with eq have "f (fst (pass s)) = Some s'" by simp
      moreover have "I (fst (pass s))" using step I True by blast
      ultimately show ?thesis using IH by blast
    next
      case False
      with eq have "s' = fst (pass s)" by simp
      with False I show ?thesis by blast
    qed
  qed
qed

lemma fixpoint_result:
  assumes "fixpoint s = Some s'" and "I s"
    and "\<And>t. I t \<Longrightarrow> snd (pass t) \<Longrightarrow> I (fst (pass t))"
  shows "\<exists>t. I t \<and> \<not> snd (pass t) \<and> s' = fst (pass t)"
  using fixpoint_result_aux [of I s s'] assms by blast

lemma fixpoint_terminates:
  assumes "wf R" and "I s"
    and step: "\<And>t. I t \<Longrightarrow> snd (pass t) \<Longrightarrow> I (fst (pass t)) \<and> (fst (pass t), t) \<in> R"
  shows "\<exists>s'. fixpoint s = Some s'"
  using assms(1,2)
proof (induction s rule: wf_induct_rule)
  case (less s)
  show ?case
  proof (cases "snd (pass s)")
    case True
    from step [OF less.prems True] less.IH have "\<exists>s'. fixpoint (fst (pass s)) = Some s'" by blast
    then show ?thesis using True by (subst fixpoint.simps) simp
  next
    case False
    then show ?thesis by (subst fixpoint.simps) simp
  qed
qed

lemma cells_subtract: "cells (subtract s1 s2) = cells s2 - cells s1"
  by (simp add: subtract_def Sentence_def)

lemma count_subtract: "count (subtract s1 s2) = count s2 - count s1"
  by (simp add: subtract_def Sentence_def)

lemma mem_pruned:
  "sen' \<in> set (pruned s) \<longleftrightarrow>
     (\<exists>sen \<in> set (knowledge s). sen' = reduce_by (found_safes s) (found_mines s) sen \<and> cells sen' \<noteq> {})"
  by (auto simp: pruned_def)

lemma clean_pass:
  assumes "clean s"
  shows "clean (fst (pass s))"
proof -
  have P: "finite (cells x) \<and> cells x \<inter> ((safes s \<union> found_safes s) \<union> (mines s \<union> found_mines s)) = {}"
    if "x \<in> set (pruned s)" for x
  proof -
    from that obtain sen where sen: "sen \<in> set (knowledge s)"
      and x: "x = reduce_by (found_safes s) (found_mines s) sen" unfolding mem_pruned by blast
    from sen assms have "finite (cells sen)" "cells sen \<inter> (safes s \<union> mines s) = {}"
      unfolding clean_def by blast+
    then show ?thesis unfolding x cells_reduce_by by blast
  qed
  have Q: "finite (cells x) \<and> cells x \<inter> ((safes s \<union> found_safes s) \<union> (mines s \<union> found_mines s)) = {}"
    if "x \<in> set (fst (infer (pruned s) False))" for x
  proof -
    from that obtain s1 s2 where "s2 \<in> set (pruned s)" and x: "x = subtract s1 s2"
      unfolding mem_infer by blast
    from P [OF this(1)] show ?thesis unfolding x cells_subtract by blast
  qed
  show ?thesis
    unfolding pass_clean [OF assms] clean_def using P Q by auto
qed

section \<open>Termination of the loop\<close>

lemma wf_pass_order: "wf pass_order"
  unfolding pass_order_def by (intro wf_inv_image wf_lex_prod wf_less_than)

lemma finite_universe: "clean s \<Longrightarrow> finite (universe s)"
  unfolding universe_def clean_def by blast

lemma finite_space:
  assumes "finite U"
  shows "finite (space U)"
proof -
  have "space U \<subseteq> (\<lambda>(A, n). Sentence A n) ` (Pow U \<times> {0 .. int (card U)})"
  proof
    fix sen assume "sen \<in> space U"
    then have c: "cells sen \<subseteq> U" and n: "0 \<le> count sen" "count sen \<le> int (card (cells sen))"
      unfolding space_def by blast+
    have "card (cells sen) \<le> card U" using c assms by (rule card_mono [rotated])
    with n have "count sen \<in> {0 .. int (card U)}" by simp
    moreover have "sen = Sentence (cells sen) (count sen)" by (simp add: Sentence_def)
    ultimately show "sen \<in> (\<lambda>(A, n). Sentence A n) ` (Pow U \<times> {0 .. int (card U)})"
      using c by (intro image_eqI [where x = "(cells sen, count sen)"]) auto
  qed
  moreover have "finite ((\<lambda>(A, n). Sentence A n) ` (Pow U \<times> {0 .. int (card U)}))"
    using assms by simp
  ultimately show ?thesis by (rule finite_subset)
qed

lemma knowledge_pass:
  "clean s \<Longrightarrow> knowledge (fst (pass s)) = pruned s @ fst (infer (pruned s) False)"
  by (simp add: pass_clean)

lemma snd_pass:
  "clean s \<Longrightarrow> snd (pass s) \<longleftrightarrow> changed s \<or> fst (infer (pruned s) False) \<noteq> []"
  by (simp add: pass_clean)

lemma cells_pruned:
  assumes "x \<in> set (pruned s)"
  shows "cells x \<noteq> {} \<and> cells x \<subseteq> universe s - (found_mines s \<union> found_safes s)"
proof -
  from assms obtain sen where sen: "sen \<in> set (knowledge s)"
    and x: "x = reduce_by (found_safes s) (found_mines s) sen" and ne: "cells x \<noteq> {}"
    unfolding mem_pruned by blast
  have "cells sen \<subseteq> universe s" using sen unfolding universe_def by blast
  then have "cells x \<subseteq> universe s - (found_mines s \<union> found_safes s)"
    unfolding x cells_reduce_by by blast
  with ne show ?thesis by blast
qed

lemma cells_inferred:
  assumes "x \<in> set (fst (infer (pruned s) False))"
  shows "cells x \<noteq> {} \<and> cells x \<subseteq> universe s - (found_mines s \<union> found_safes s)
         \<and> 0 \<le> count x \<and> count x \<le> int (card (cells x)) \<and> x \<notin> set (pruned s)"
proof -
  from assms obtain s1 s2 where s2: "s2 \<in> set (pruned s)" and i: "inferable (pruned s) s1 s2"
    and x: "x = subtract s1 s2" unfolding mem_infer by blast
  from i have c: "card (cells x) > 0" "0 \<le> count x" "count x \<le> int (card (cells x))"
    "x \<notin> set (pruned s)"
    unfolding inferable_def x cells_subtract count_subtract by blast+
  from c(1) have "cells x \<noteq> {}" by auto
  moreover have "cells x \<subseteq> cells s2" unfolding x cells_subtract by blast
  ultimately show ?thesis using cells_pruned [OF s2] c by blast
qed

lemma universe_pass:
  assumes "clean s"
  shows "universe (fst (pass s)) \<subseteq> universe s - (found_mines s \<union> found_safes s)"
proof
  fix c assume "c \<in> universe (fst (pass s))"
  then obtain x where x: "x \<in> set (pruned s) \<or> x \<in> set (fst (infer (pruned s) False))"
    and c: "c \<in> cells x"
    unfolding universe_def knowledge_pass [OF assms] by auto
  from x cells_pruned [of x s] cells_inferred [of x s]
  have "cells x \<subseteq> universe s - (found_mines s \<union> found_safes s)" by blast
  with c show "c \<in> universe s - (found_mines s \<union> found_safes s)" by blast
qed

lemma found_in_universe: "found_mines s \<union> found_safes s \<subseteq> universe s"
  using found_mines_subset [of s] found_safes_subset [of s] unfolding universe_def by blast

lemma reduce_by_empty: "reduce_by {} {} sen = sen"
  by (simp add: reduce_by_def)

lemma pruned_nothing_found:
  assumes "found_mines s = {}" "found_safes s = {}"
  shows "pruned s = filter (\<lambda>sen. cells sen \<noteq> {}) (knowledge s)"
proof -
  have "map (reduce_by {} {}) (knowledge s) = knowledge s"
    by (rule map_idI) (rule reduce_by_empty)
  then show ?thesis unfolding pruned_def assms by simp
qed

lemma empties_pos:
  assumes "length (filter (\<lambda>sen. cells sen \<noteq> {}) (knowledge s)) < length (knowledge s)"
  shows "0 < empties s"
proof -
  have "length (filter (\<lambda>sen. cells sen = {}) (knowledge s))
        + length (filter (\<lambda>sen. \<not> cells sen = {}) (knowledge s)) = length (knowledge s)"
    by (rule sum_length_filter_compl)
  with assms show ?thesis unfolding empties_def by linarith
qed

lemma pass_decreases:
  assumes cl: "clean s" and again: "snd (pass s)"
  shows "(fst (pass s), s) \<in> pass_order"
proof (cases "found_mines s \<union> found_safes s = {}")
  case False
  have "universe (fst (pass s)) \<subset> universe s"
    using universe_pass [OF cl] found_in_universe [of s] False by blast
  then have "card (universe (fst (pass s))) < card (universe s)"
    using finite_universe [OF cl] by (intro psubset_card_mono)
  then show ?thesis unfolding pass_order_def by simp
next
  case True
  then have nf: "found_mines s = {}" "found_safes s = {}" by blast+
  let ?s' = "fst (pass s)" and ?inf = "fst (infer (pruned s) False)"
  let ?U = "universe s"
  note pr = pruned_nothing_found [OF nf]
  have kb': "set (knowledge ?s') = {sen \<in> set (knowledge s). cells sen \<noteq> {}} \<union> set ?inf"
    unfolding knowledge_pass [OF cl] pr by auto
  have U1: "universe ?s' \<subseteq> ?U" using universe_pass [OF cl] by blast
  have U2: "?U \<subseteq> universe ?s'"
  proof
    fix c assume "c \<in> ?U"
    then obtain sen where "sen \<in> set (knowledge s)" "c \<in> cells sen" unfolding universe_def by blast
    then have "sen \<in> set (knowledge ?s')" "c \<in> cells sen" unfolding kb' by blast+
    then show "c \<in> universe ?s'" unfolding universe_def by blast
  qed
  have U: "universe ?s' = ?U" using U1 U2 by blast
  have ne: "cells x \<noteq> {}" if "x \<in> set (knowledge ?s')" for x
    using that cells_inferred [of x s] unfolding kb' by blast
  have "filter (\<lambda>sen. cells sen = {}) (knowledge ?s') = []"
    unfolding filter_empty_conv using ne by blast
  then have e': "empties ?s' = 0" unfolding empties_def by simp
  have sub: "space ?U - set (knowledge ?s') \<subseteq> space ?U - set (knowledge s)"
  proof
    fix x assume x: "x \<in> space ?U - set (knowledge ?s')"
    then have "cells x \<noteq> {}" unfolding space_def by blast
    with x show "x \<in> space ?U - set (knowledge s)" unfolding kb' by blast
  qed
  have fin: "finite (space ?U - set (knowledge s))"
    using finite_space [OF finite_universe [OF cl]] by blast
  have le: "card (space ?U - set (knowledge ?s')) \<le> card (space ?U - set (knowledge s))"
    using sub fin by (intro card_mono)
  have "todo ?s' < todo s"
  proof (cases "?inf = []")
    case False
    then obtain x where x: "x \<in> set ?inf" by (cases ?inf) auto
    note cx = cells_inferred [OF x]
    have "x \<in> space ?U" unfolding space_def using cx by blast
    moreover have "x \<notin> set (knowledge s)" using cx unfolding pr by auto
    moreover have "x \<in> set (knowledge ?s')" using x unfolding kb' by blast
    ultimately have "space ?U - set (knowledge ?s') \<subset> space ?U - set (knowledge s)"
      using sub by blast
    then have "card (space ?U - set (knowledge ?s')) < card (space ?U - set (knowledge s))"
      using fin by (intro psubset_card_mono)
    then show ?thesis unfolding todo_def e' U by simp
  next
    case e: True
    with again have "changed s" unfolding snd_pass [OF cl] by simp
    then have "length (pruned s) < length (knowledge s)" unfolding changed_def nf by simp
    then have "0 < empties s" unfolding pr by (rule empties_pos)
    with le show ?thesis unfolding todo_def e' U by simp
  qed
  with U show ?thesis by (simp add: pass_order_def)
qed

lemma fixpoint_clean:
  assumes "clean s"
  shows "\<exists>s'. fixpoint s = Some s'"
  using wf_pass_order assms
proof (rule fixpoint_terminates [where I = clean])
  fix t assume "clean t" "snd (pass t)"
  then show "clean (fst (pass t)) \<and> (fst (pass t), t) \<in> pass_order"
    using clean_pass pass_decreases by blast
qed

section \<open>The neighbourhood loops\<close>

lemma add_knowledge_observed: "add_knowledge s c cnt = fixpoint (observed s c cnt)"
  by (simp add: add_knowledge_def observed_def Let_def)

lemma distinct_around: "distinct (around c)"
  by (cases c) (simp add: around_def)

lemma fold_neighbor_step:
  "distinct xs \<Longrightarrow> fold (neighbor_step s c) xs (N, k) =
     (N \<union> {n \<in> set xs. inside s c n \<and> n \<notin> moves_made s \<and> n \<notin> safes s \<and> n \<notin> mines s},
      k - int (card {n \<in> set xs. inside s c n \<and> n \<in> mines s}))"
proof (induction xs arbitrary: N k)
  case Nil
  show ?case by simp
next
  case (Cons x xs)
  then have d: "distinct xs" and nx: "x \<notin> set xs" by simp_all
  let ?A = "\<lambda>ys. {n \<in> set ys. inside s c n \<and> n \<notin> moves_made s \<and> n \<notin> safes s \<and> n \<notin> mines s}"
  let ?B = "\<lambda>ys. {n \<in> set ys. inside s c n \<and> n \<in> mines s}"
  have fin: "finite (?B xs)" by simp
  have nB: "x \<notin> ?B xs" using nx by simp
  consider (out) "\<not> inside s c x"
    | (new) "inside s c x" "x \<notin> moves_made s \<and> x \<notin> safes s \<and> x \<notin> mines s"
    | (mine) "inside s c x" "x \<in> mines s"
    | (known) "inside s c x" "x \<notin> mines s" "x \<in> moves_made s \<or> x \<in> safes s"
    by blast
  then show ?case
  proof cases
    case out
    then have st: "neighbor_step s c x (N, k) = (N, k)"
      by (auto simp: inside_def neighbor_step_def)
    have "?A (x # xs) = ?A xs" "?B (x # xs) = ?B xs" using out by auto
    then show ?thesis using st Cons.IH [OF d] by simp
  next
    case new
    then have st: "neighbor_step s c x (N, k) = (insert x N, k)"
      by (auto simp: inside_def neighbor_step_def)
    have "?A (x # xs) = insert x (?A xs)" "?B (x # xs) = ?B xs" using new by auto
    then show ?thesis using st Cons.IH [OF d] by simp
  next
    case mine
    then have st: "neighbor_step s c x (N, k) = (N, k - 1)"
      by (auto simp: inside_def neighbor_step_def)
    have A: "?A (x # xs) = ?A xs" and B: "?B (x # xs) = insert x (?B xs)" using mine by auto
    have "card (?B (x # xs)) = Suc (card (?B xs))" unfolding B using fin nB by (rule card_insert_disjoint)
    then show ?thesis using st A Cons.IH [OF d] by simp
  next
    case known
    then have st: "neighbor_step s c x (N, k) = (N, k)"
      by (auto simp: inside_def neighbor_step_def)
    have "?A (x # xs) = ?A xs" "?B (x # xs) = ?B xs" using known by auto
    then show ?thesis using st Cons.IH [OF d] by simp
  qed
qed

lemma collect_neighbors_eq:
  "collect_neighbors s c cnt =
     (neighbors (height s) (width s) c - (moves_made s \<union> safes s \<union> mines s),
      cnt - int (card (neighbors (height s) (width s) c \<inter> mines s)))"
proof -
  have A: "{n \<in> set (around c). inside s c n \<and> n \<notin> moves_made s \<and> n \<notin> safes s \<and> n \<notin> mines s}
        = neighbors (height s) (width s) c - (moves_made s \<union> safes s \<union> mines s)"
    unfolding neighbors_def inside_def by blast
  have B: "{n \<in> set (around c). inside s c n \<and> n \<in> mines s}
        = neighbors (height s) (width s) c \<inter> mines s"
    unfolding neighbors_def inside_def by blast
  show ?thesis
    unfolding collect_neighbors_def fold_neighbor_step [OF distinct_around] A B by simp
qed

lemma finite_neighbors: "finite (neighbors h w c)"
  unfolding neighbors_def by simp

lemma fold_nearby_step:
  "distinct xs \<Longrightarrow> fold (nearby_step h w board c) xs k =
     k + int (card {n \<in> set xs. n \<noteq> c \<and> 0 \<le> fst n \<and> fst n < h \<and> 0 \<le> snd n \<and> snd n < w
                       \<and> n \<in> board})"
proof (induction xs arbitrary: k)
  case Nil
  show ?case by simp
next
  case (Cons x xs)
  then have d: "distinct xs" and nx: "x \<notin> set xs" by simp_all
  let ?B = "\<lambda>ys. {n \<in> set ys. n \<noteq> c \<and> 0 \<le> fst n \<and> fst n < h \<and> 0 \<le> snd n \<and> snd n < w
                       \<and> n \<in> board}"
  have fin: "finite (?B xs)" by simp
  have nB: "x \<notin> ?B xs" using nx by simp
  show ?case
  proof (cases "x \<noteq> c \<and> 0 \<le> fst x \<and> fst x < h \<and> 0 \<le> snd x \<and> snd x < w \<and> x \<in> board")
    case True
    then have st: "nearby_step h w board c x k = k + 1" by (simp add: nearby_step_def)
    have B: "?B (x # xs) = insert x (?B xs)" using True by auto
    have "card (?B (x # xs)) = Suc (card (?B xs))" unfolding B using fin nB by (rule card_insert_disjoint)
    then show ?thesis using st Cons.IH [OF d] by simp
  next
    case False
    then have st: "nearby_step h w board c x k = k" by (auto simp: nearby_step_def)
    have "?B (x # xs) = ?B xs" using False by auto
    then show ?thesis using st Cons.IH [OF d] by simp
  qed
qed

lemma nearby_mines_eq: "nearby_mines h w board c = int (card (neighbors h w c \<inter> board))"
proof -
  have "{n \<in> set (around c). n \<noteq> c \<and> 0 \<le> fst n \<and> fst n < h \<and> 0 \<le> snd n \<and> snd n < w \<and> n \<in> board}
        = neighbors h w c \<inter> board"
    unfolding neighbors_def by blast
  then show ?thesis
    unfolding nearby_mines_def fold_nearby_step [OF distinct_around] by simp
qed

section \<open>Reachable states are clean\<close>

lemma fixpoint_passes:
  assumes "wf R" and "I s"
    and step: "\<And>t. I t \<Longrightarrow> snd (pass t) \<Longrightarrow> I (fst (pass t)) \<and> (fst (pass t), t) \<in> R"
  shows "\<exists>k. \<not> snd (pass (((\<lambda>t. fst (pass t)) ^^ k) s))
           \<and> fixpoint s = Some (fst (pass (((\<lambda>t. fst (pass t)) ^^ k) s)))"
  using assms(1,2)
proof (induction s rule: wf_induct_rule)
  case (less s)
  define f where "f = (\<lambda>t. fst (pass t))"
  have IH: "(y, s) \<in> R \<Longrightarrow> I y \<Longrightarrow>
      \<exists>k. \<not> snd (pass ((f ^^ k) y)) \<and> fixpoint y = Some (fst (pass ((f ^^ k) y)))" for y
    unfolding f_def by (rule less.IH)
  have "\<exists>k. \<not> snd (pass ((f ^^ k) s)) \<and> fixpoint s = Some (fst (pass ((f ^^ k) s)))"
  proof (cases "snd (pass s)")
    case True
    have st: "I (fst (pass s)) \<and> (fst (pass s), s) \<in> R" using less.prems True by (rule step)
    from st have I': "I (f s)" and R': "(f s, s) \<in> R" unfolding f_def by simp_all
    from IH [OF R' I'] obtain k where
      k: "\<not> snd (pass ((f ^^ k) (f s))) \<and> fixpoint (f s) = Some (fst (pass ((f ^^ k) (f s))))" ..
    have sw: "(f ^^ Suc k) s = (f ^^ k) (f s)" by (simp only: funpow_Suc_right o_apply)
    have fx: "fixpoint s = fixpoint (f s)" unfolding f_def using True by (subst fixpoint.simps) simp
    have "\<not> snd (pass ((f ^^ Suc k) s)) \<and> fixpoint s = Some (fst (pass ((f ^^ Suc k) s)))"
      unfolding sw fx using k .
    then show ?thesis by (rule exI)
  next
    case False
    then have fx: "fixpoint s = Some (fst (pass s))" by (subst fixpoint.simps) simp
    have z: "(f ^^ 0) s = s" by simp
    have "\<not> snd (pass ((f ^^ 0) s)) \<and> fixpoint s = Some (fst (pass ((f ^^ 0) s)))"
      unfolding z fx using False by simp
    then show ?thesis by (rule exI)
  qed
  then show ?case unfolding f_def .
qed

lemma cells_sentence_mark_mine: "cells (sentence_mark_mine sen c) = cells sen - {c}"
  by (auto simp: sentence_mark_mine_def)

lemma cells_sentence_mark_safe: "cells (sentence_mark_safe sen c) = cells sen - {c}"
  by (auto simp: sentence_mark_safe_def)

lemma clean_init: "clean (init_ai h w)"
  by (simp add: clean_def init_ai_def)

lemma clean_mark_mine:
  assumes "clean s"
  shows "clean (mark_mine s c)"
proof -
  have "finite (cells x) \<and> cells x \<inter> (safes s \<union> insert c (mines s)) = {}"
    if "x \<in> set (map (\<lambda>sen. sentence_mark_mine sen c) (knowledge s))" for x
  proof -
    from that obtain sen where sen: "sen \<in> set (knowledge s)" and x: "x = sentence_mark_mine sen c"
      by auto
    from sen assms have "finite (cells sen)" "cells sen \<inter> (safes s \<union> mines s) = {}"
      unfolding clean_def by blast+
    then show ?thesis unfolding x cells_sentence_mark_mine by blast
  qed
  then show ?thesis unfolding clean_def mark_mine_def by simp
qed

lemma clean_mark_safe:
  assumes "clean s"
  shows "clean (mark_safe s c)"
proof -
  have "finite (cells x) \<and> cells x \<inter> (insert c (safes s) \<union> mines s) = {}"
    if "x \<in> set (map (\<lambda>sen. sentence_mark_safe sen c) (knowledge s))" for x
  proof -
    from that obtain sen where sen: "sen \<in> set (knowledge s)" and x: "x = sentence_mark_safe sen c"
      by auto
    from sen assms have "finite (cells sen)" "cells sen \<inter> (safes s \<union> mines s) = {}"
      unfolding clean_def by blast+
    then show ?thesis unfolding x cells_sentence_mark_safe by blast
  qed
  then show ?thesis unfolding clean_def mark_safe_def by simp
qed

lemma add_sentence_fields:
  "moves_made (add_sentence s nc) = moves_made s" "safes (add_sentence s nc) = safes s"
  "mines (add_sentence s nc) = mines s" "height (add_sentence s nc) = height s"
  "width (add_sentence s nc) = width s"
  by (cases nc; simp add: add_sentence_def Let_def)+

lemma set_knowledge_add_sentence:
  "set (knowledge (add_sentence s (N, k))) \<subseteq> insert (Sentence N k) (set (knowledge s))"
  by (auto simp: add_sentence_def Let_def)

lemma clean_add_sentence:
  assumes "clean s" "finite N" "N \<inter> (safes s \<union> mines s) = {}"
  shows "clean (add_sentence s (N, k))"
proof -
  have "finite (cells x) \<and> cells x \<inter> (safes s \<union> mines s) = {}"
    if "x \<in> set (knowledge (add_sentence s (N, k)))" for x
  proof -
    from that set_knowledge_add_sentence [of s N k]
    have "x = Sentence N k \<or> x \<in> set (knowledge s)" by blast
    then show ?thesis
    proof
      assume "x = Sentence N k"
      then show ?thesis using assms(2,3) by (simp add: Sentence_def)
    next
      assume "x \<in> set (knowledge s)"
      then show ?thesis using assms(1) unfolding clean_def by blast
    qed
  qed
  then show ?thesis unfolding clean_def add_sentence_fields by blast
qed

lemma observed_eq:
  "observed s c cnt =
     add_sentence (mark_safe (s\<lparr>moves_made := insert c (moves_made s)\<rparr>) c)
       (neighbors (height s) (width s) c - (insert c (moves_made s) \<union> insert c (safes s) \<union> mines s),
        cnt - int (card (neighbors (height s) (width s) c \<inter> mines s)))"
  by (simp add: observed_def Let_def collect_neighbors_eq mark_safe_def)

lemma observed_fields:
  "moves_made (observed s c cnt) = insert c (moves_made s)"
  "safes (observed s c cnt) = insert c (safes s)"
  "mines (observed s c cnt) = mines s"
  "height (observed s c cnt) = height s"
  "width (observed s c cnt) = width s"
  unfolding observed_eq add_sentence_fields by (simp_all add: mark_safe_def)

lemma clean_moves: "clean (s\<lparr>moves_made := X\<rparr>) = clean s"
  by (simp add: clean_def)

lemma clean_observed:
  assumes "clean s"
  shows "clean (observed s c cnt)"
proof -
  let ?s2 = "mark_safe (s\<lparr>moves_made := insert c (moves_made s)\<rparr>) c"
  have c2: "clean ?s2" using assms by (intro clean_mark_safe) (simp add: clean_moves)
  have f: "safes ?s2 = insert c (safes s)" "mines ?s2 = mines s" by (simp_all add: mark_safe_def)
  show ?thesis unfolding observed_eq
  proof (rule clean_add_sentence [OF c2])
    show "finite (neighbors (height s) (width s) c
        - (insert c (moves_made s) \<union> insert c (safes s) \<union> mines s))"
      using finite_neighbors by blast
    show "(neighbors (height s) (width s) c
        - (insert c (moves_made s) \<union> insert c (safes s) \<union> mines s)) \<inter> (safes ?s2 \<union> mines ?s2) = {}"
      unfolding f by blast
  qed
qed

lemma pass_fields:
  assumes "clean s"
  shows "moves_made (fst (pass s)) = moves_made s"
    "mines (fst (pass s)) = mines s \<union> found_mines s"
    "safes (fst (pass s)) = safes s \<union> found_safes s"
    "height (fst (pass s)) = height s" "width (fst (pass s)) = width s"
  by (simp_all add: pass_clean [OF assms])

lemma tidy_pass: "tidy s \<Longrightarrow> tidy (fst (pass s))"
  unfolding tidy_def using clean_pass pass_fields(1,3) by blast

lemma tidy_fixpoint:
  assumes "tidy s" "fixpoint s = Some s'"
  shows "tidy s'"
proof -
  from fixpoint_result [of s s' tidy, OF assms(2,1)] tidy_pass
  obtain t where "tidy t" "s' = fst (pass t)" by blast
  then show ?thesis using tidy_pass by blast
qed

lemma tidy_observed: "tidy s \<Longrightarrow> tidy (observed s c cnt)"
  unfolding tidy_def observed_fields using clean_observed by blast

lemma tidy_step:
  assumes "step s s'" "tidy s"
  shows "tidy s'"
  using assms
proof (cases rule: step.cases)
  case (observe c n)
  then show ?thesis using tidy_fixpoint [OF tidy_observed [OF assms(2)]]
    unfolding add_knowledge_observed by blast
next
  case (mine c)
  then show ?thesis using assms(2) clean_mark_mine [of s c] unfolding tidy_def
    by (simp add: mark_mine_def)
next
  case (safe c)
  have "moves_made (mark_safe s c) \<subseteq> safes (mark_safe s c)"
    using assms(2) unfolding tidy_def by (auto simp: mark_safe_def)
  then show ?thesis using safe assms(2) clean_mark_safe [of s c] unfolding tidy_def by blast
qed

lemma reachable_tidy: "reachable s \<Longrightarrow> tidy s"
proof (induction rule: reachable.induct)
  case (init h w)
  show ?case unfolding tidy_def using clean_init by (simp add: init_ai_def)
next
  case (call s s')
  then show ?case using tidy_step by blast
qed

text \<open>
  Claim C2. From every reachable state (any calls of \<^verbatim>\<open>add_knowledge\<close>,
  \<^verbatim>\<open>mark_mine\<close> and \<^verbatim>\<open>mark_safe\<close> on a new engine, with any arguments) and for every
  cell and count, the loop of \<^verbatim>\<open>add_knowledge\<close> leaves after finitely many passes:
  some pass, the one after \<open>k\<close> others, asks for no further pass, and the call returns
  the state of that pass.
\<close>

theorem add_knowledge_terminates:
  assumes "reachable s"
  shows "\<exists>k s'. add_knowledge s c n = Some s'
           \<and> s' = fst (pass (((\<lambda>t. fst (pass t)) ^^ k) (observed s c n)))
           \<and> \<not> snd (pass (((\<lambda>t. fst (pass t)) ^^ k) (observed s c n)))"
proof -
  have cl: "clean (observed s c n)"
    using reachable_tidy [OF assms] clean_observed unfolding tidy_def by blast
  have "\<exists>k. \<not> snd (pass (((\<lambda>t. fst (pass t)) ^^ k) (observed s c n)))
           \<and> fixpoint (observed s c n) = Some (fst (pass (((\<lambda>t. fst (pass t)) ^^ k) (observed s c n))))"
    using wf_pass_order cl
  proof (rule fixpoint_passes [where I = clean])
    fix t assume "clean t" "snd (pass t)"
    then show "clean (fst (pass t)) \<and> (fst (pass t), t) \<in> pass_order"
      using clean_pass pass_decreases by blast
  qed
  then show ?thesis unfolding add_knowledge_observed by blast
qed

theorem add_knowledge_terminates_witness:
  "reachable after_corner \<and> (\<exists>s'. add_knowledge after_corner (0, 1) 1 = Some s')"
proof -
  have "step (init_ai 2 3) after_corner" using run_corner by (rule step.observe)
  with reachable.init [of 2 3] have r: "reachable after_corner" by (rule reachable.call)
  from add_knowledge_terminates [OF r, of "(0, 1)" 1] r show ?thesis by blast
qed

section \<open>Soundness for the observations of one board\<close>

lemma int_card_diff:
  assumes "finite A" "B \<subseteq> A"
  shows "int (card (A - B)) = int (card A) - int (card B)"
proof -
  have fB: "finite B" using assms by (rule rev_finite_subset)
  have "card B \<le> card A" using assms by (rule card_mono)
  moreover have "card (A - B) = card A - card B" using fB assms(2) by (rule card_Diff_subset)
  ultimately show ?thesis by simp
qed

lemma holds_reduce_by:
  assumes "holds M sen" "Mn \<subseteq> M" "S \<inter> M = {}"
  shows "holds M (reduce_by S Mn sen)"
proof -
  from assms(1) have fin: "finite (cells sen)" and cnt: "count sen = int (card (cells sen \<inter> M))"
    unfolding holds_def by blast+
  have e: "(cells sen - (S \<union> Mn)) \<inter> M = cells sen \<inter> M - cells sen \<inter> Mn"
    using assms(2,3) by blast
  have "int (card (cells sen \<inter> M - cells sen \<inter> Mn))
        = int (card (cells sen \<inter> M)) - int (card (cells sen \<inter> Mn))"
    using fin assms(2) by (intro int_card_diff) blast+
  then show ?thesis unfolding holds_def using fin cnt e by (simp add: reduce_by_def)
qed

lemma holds_subtract:
  assumes "holds M s1" "holds M s2" "cells s1 \<subseteq> cells s2"
  shows "holds M (subtract s1 s2)"
proof -
  have e: "(cells s2 - cells s1) \<inter> M = cells s2 \<inter> M - cells s1 \<inter> M" by blast
  have "int (card (cells s2 \<inter> M - cells s1 \<inter> M))
        = int (card (cells s2 \<inter> M)) - int (card (cells s1 \<inter> M))"
    using assms unfolding holds_def by (intro int_card_diff) blast+
  then show ?thesis
    using assms(1,2) e unfolding holds_def cells_subtract count_subtract by simp
qed

lemma holds_bounds:
  assumes "holds M sen"
  shows "0 \<le> count sen \<and> count sen \<le> int (card (cells sen))"
proof -
  from assms have fin: "finite (cells sen)" and cnt: "count sen = int (card (cells sen \<inter> M))"
    unfolding holds_def by blast+
  have "card (cells sen \<inter> M) \<le> card (cells sen)" using fin by (intro card_mono) blast+
  then show ?thesis unfolding cnt by simp
qed

lemma holds_known_mines:
  assumes "holds M sen"
  shows "known_mines sen \<subseteq> M"
proof (cases "int (card (cells sen)) = count sen \<and> count sen > 0")
  case True
  from assms have fin: "finite (cells sen)" and cnt: "count sen = int (card (cells sen \<inter> M))"
    unfolding holds_def by blast+
  have "card (cells sen \<inter> M) = card (cells sen)" using True cnt by simp
  then have "cells sen \<inter> M = cells sen" using fin by (intro card_subset_eq) blast+
  then show ?thesis using True unfolding known_mines_def by auto
next
  case False
  then show ?thesis unfolding known_mines_def by auto
qed

lemma holds_known_safes:
  assumes "holds M sen"
  shows "known_safes sen \<inter> M = {}"
proof (cases "count sen = 0 \<and> card (cells sen) > 0")
  case True
  from assms have fin: "finite (cells sen)" and cnt: "count sen = int (card (cells sen \<inter> M))"
    unfolding holds_def by blast+
  have "card (cells sen \<inter> M) = 0" using True cnt by simp
  then have "cells sen \<inter> M = {}" using fin by simp
  then show ?thesis using True unfolding known_safes_def by simp
next
  case False
  then show ?thesis unfolding known_safes_def by auto
qed

lemma sentence_mark_mine_reduce: "sentence_mark_mine sen c = reduce_by {} {c} sen"
  by (simp add: sentence_mark_mine_def reduce_by_def)

lemma sentence_mark_safe_reduce: "sentence_mark_safe sen c = reduce_by {c} {} sen"
  by (simp add: sentence_mark_safe_def reduce_by_def)

lemma sound_clean: "sound h w M s \<Longrightarrow> clean s"
  unfolding sound_def by blast

lemma sound_init: "sound h w M (init_ai h w)"
  unfolding sound_def using clean_init [of h w] by (simp add: init_ai_def)

lemma sound_mark_mine:
  assumes "sound h w M s" "c \<in> M"
  shows "sound h w M (mark_mine s c)"
proof -
  have h: "holds M x" if "x \<in> set (knowledge (mark_mine s c))" for x
  proof -
    from that obtain sen where sen: "sen \<in> set (knowledge s)" and x: "x = reduce_by {} {c} sen"
      unfolding mark_mine_def sentence_mark_mine_reduce by auto
    from sen assms(1) have "holds M sen" unfolding sound_def by blast
    then show ?thesis unfolding x using assms(2) by (intro holds_reduce_by) blast+
  qed
  have f: "height (mark_mine s c) = height s" "width (mark_mine s c) = width s"
    "mines (mark_mine s c) = insert c (mines s)" "safes (mark_mine s c) = safes s"
    "moves_made (mark_mine s c) = moves_made s"
    by (simp_all add: mark_mine_def)
  have "clean (mark_mine s c)" using assms(1) sound_clean clean_mark_mine by blast
  then show ?thesis using assms h unfolding sound_def f by blast
qed

lemma sound_mark_safe:
  assumes "sound h w M s" "c \<notin> M"
  shows "sound h w M (mark_safe s c)"
proof -
  have h: "holds M x" if "x \<in> set (knowledge (mark_safe s c))" for x
  proof -
    from that obtain sen where sen: "sen \<in> set (knowledge s)" and x: "x = reduce_by {c} {} sen"
      unfolding mark_safe_def sentence_mark_safe_reduce by auto
    from sen assms(1) have "holds M sen" unfolding sound_def by blast
    then show ?thesis unfolding x using assms(2) by (intro holds_reduce_by) blast+
  qed
  have f: "height (mark_safe s c) = height s" "width (mark_safe s c) = width s"
    "mines (mark_safe s c) = mines s" "safes (mark_safe s c) = insert c (safes s)"
    "moves_made (mark_safe s c) = moves_made s"
    by (simp_all add: mark_safe_def)
  have "clean (mark_safe s c)" using assms(1) sound_clean clean_mark_safe by blast
  then show ?thesis using assms h unfolding sound_def f by blast
qed

lemma sound_observed:
  assumes "sound h w M s" "c \<notin> M"
  shows "sound h w M (observed s c (nearby_mines h w M c))"
proof -
  from assms(1) have hw: "height s = h" "width s = w" and mi: "mines s \<subseteq> M"
    and sa: "safes s \<inter> M = {}" and mo: "moves_made s \<inter> M = {}"
    and kb: "\<And>sen. sen \<in> set (knowledge s) \<Longrightarrow> holds M sen"
    unfolding sound_def by blast+
  let ?nb = "neighbors h w c"
  let ?N = "?nb - (insert c (moves_made s) \<union> insert c (safes s) \<union> mines s)"
  let ?k = "nearby_mines h w M c - int (card (?nb \<inter> mines s))"
  let ?s2 = "mark_safe (s\<lparr>moves_made := insert c (moves_made s)\<rparr>) c"
  have ob: "observed s c (nearby_mines h w M c) = add_sentence ?s2 (?N, ?k)"
    unfolding observed_eq hw ..
  have e: "?N \<inter> M = ?nb \<inter> M - ?nb \<inter> mines s" using mi sa mo assms(2) by blast
  have "int (card (?nb \<inter> M - ?nb \<inter> mines s)) = int (card (?nb \<inter> M)) - int (card (?nb \<inter> mines s))"
    using finite_neighbors [of h w c] mi by (intro int_card_diff) blast+
  then have new: "holds M (Sentence ?N ?k)"
    unfolding holds_def nearby_mines_eq using finite_neighbors [of h w c] e
    by (simp add: Sentence_def)
  have old: "holds M x" if "x \<in> set (knowledge ?s2)" for x
  proof -
    from that obtain sen where sen: "sen \<in> set (knowledge s)" and x: "x = reduce_by {c} {} sen"
      unfolding mark_safe_def sentence_mark_safe_reduce by auto
    from kb [OF sen] show ?thesis unfolding x using assms(2) by (intro holds_reduce_by) blast+
  qed
  have h: "holds M x" if "x \<in> set (knowledge (observed s c (nearby_mines h w M c)))" for x
    using that set_knowledge_add_sentence [of ?s2 ?N ?k] new old unfolding ob by blast
  have cl: "clean (observed s c (nearby_mines h w M c))"
    using assms(1) sound_clean clean_observed by blast
  show ?thesis
    unfolding sound_def observed_fields using hw mi sa mo assms(2) cl h by blast
qed

lemma found_mines_sound: "sound h w M s \<Longrightarrow> found_mines s \<subseteq> M"
  unfolding sound_def found_mines_def using holds_known_mines by blast

lemma found_safes_sound: "sound h w M s \<Longrightarrow> found_safes s \<inter> M = {}"
  unfolding sound_def found_safes_def using holds_known_safes by blast

lemma holds_pruned:
  assumes "sound h w M s" "x \<in> set (pruned s)"
  shows "holds M x"
proof -
  from assms(2) obtain sen where sen: "sen \<in> set (knowledge s)"
    and x: "x = reduce_by (found_safes s) (found_mines s) sen" unfolding mem_pruned by blast
  from sen assms(1) have "holds M sen" unfolding sound_def by blast
  then show ?thesis unfolding x
    using found_mines_sound [OF assms(1)] found_safes_sound [OF assms(1)] by (rule holds_reduce_by)
qed

lemma holds_inferred:
  assumes "sound h w M s" "x \<in> set (fst (infer (pruned s) False))"
  shows "holds M x"
proof -
  from assms(2) obtain s1 s2 where s12: "s1 \<in> set (pruned s)" "s2 \<in> set (pruned s)"
    and i: "inferable (pruned s) s1 s2" and x: "x = subtract s1 s2" unfolding mem_infer by blast
  from i have "cells s1 \<subseteq> cells s2" unfolding inferable_def by blast
  with holds_pruned [OF assms(1) s12(1)] holds_pruned [OF assms(1) s12(2)]
  show ?thesis unfolding x by (rule holds_subtract)
qed

lemma sound_pass:
  assumes "sound h w M s"
  shows "sound h w M (fst (pass s))"
proof -
  note cl = sound_clean [OF assms]
  have h: "holds M x" if "x \<in> set (knowledge (fst (pass s)))" for x
    using that holds_pruned [OF assms] holds_inferred [OF assms]
    unfolding knowledge_pass [OF cl] by auto
  show ?thesis
    unfolding sound_def pass_fields [OF cl]
    using assms found_mines_sound [OF assms] found_safes_sound [OF assms] clean_pass [OF cl] h
    unfolding sound_def by blast
qed

lemma sound_fixpoint:
  assumes "sound h w M s" "fixpoint s = Some s'"
  shows "sound h w M s'"
proof -
  from fixpoint_result [of s s' "sound h w M", OF assms(2,1)] sound_pass
  obtain t where "sound h w M t" "s' = fst (pass t)" by blast
  then show ?thesis using sound_pass by blast
qed

lemma sound_step:
  assumes "step_on h w M s s'" "sound h w M s"
  shows "sound h w M s'"
  using assms(1)
proof (cases rule: step_on.cases)
  case (observe c)
  then show ?thesis using sound_fixpoint [OF sound_observed [OF assms(2)]]
    unfolding add_knowledge_observed by blast
next
  case (mine c)
  then show ?thesis using sound_mark_mine [OF assms(2)] by blast
next
  case (safe c)
  then show ?thesis using sound_mark_safe [OF assms(2)] by blast
qed

lemma reachable_on_sound: "reachable_on h w M s \<Longrightarrow> sound h w M s"
proof (induction rule: reachable_on.induct)
  case init
  show ?case by (rule sound_init)
next
  case (call s s')
  then show ?case using sound_step by blast
qed


section \<open>A run on a board with one mine\<close>

lemma nearby_one_mine:
  "nearby_mines 2 3 {(1, 0)} (0, 0) = 1" "nearby_mines 2 3 {(1, 0)} (0, 1) = 1"
  by code_simp+

lemma reachable_on_after_corner: "reachable_on 2 3 {(1, 0)} after_corner"
proof -
  have "step_on 2 3 {(1, 0)} (init_ai 2 3) after_corner"
    by (rule step_on.observe [of "(0, 0)"]) (simp_all add: nearby_one_mine run_corner)
  with reachable_on.init [of 2 3 "{(1, 0)}"] show ?thesis by (rule reachable_on.call)
qed

lemma reachable_on_after_duplicate: "reachable_on 2 3 {(1, 0)} after_duplicate"
proof -
  have "step_on 2 3 {(1, 0)} after_corner after_duplicate"
    by (rule step_on.observe [of "(0, 1)"]) (simp_all add: nearby_one_mine run_duplicate)
  with reachable_on_after_corner show ?thesis by (rule reachable_on.call)
qed

section \<open>Soundness of the knowledge base\<close>

text \<open>
  Claim C3. Under observations consistent with one placement \<open>M\<close> of the mines of an
  \<open>h\<close> by \<open>w\<close> board, in every state in which \<^verbatim>\<open>add_knowledge\<close>, \<^verbatim>\<open>mark_mine\<close> or
  \<^verbatim>\<open>mark_safe\<close> returns, every sentence of the knowledge base has a count between 0 and
  the number of its cells, and none of its cells is in \<open>safes\<close> or in \<open>mines\<close>.
\<close>

theorem knowledge_sound:
  assumes "reachable_on h w M s"
  shows "\<forall>sen \<in> set (knowledge s).
           0 \<le> count sen \<and> count sen \<le> int (card (cells sen))
           \<and> cells sen \<inter> safes s = {} \<and> cells sen \<inter> mines s = {}"
proof
  fix sen assume sen: "sen \<in> set (knowledge s)"
  note so = reachable_on_sound [OF assms]
  from so sen have "holds M sen" unfolding sound_def by blast
  then have b: "0 \<le> count sen \<and> count sen \<le> int (card (cells sen))" by (rule holds_bounds)
  from so sen have "cells sen \<inter> (safes s \<union> mines s) = {}" unfolding sound_def clean_def by blast
  then have "cells sen \<inter> safes s = {} \<and> cells sen \<inter> mines s = {}" by blast
  with b show "0 \<le> count sen \<and> count sen \<le> int (card (cells sen))
           \<and> cells sen \<inter> safes s = {} \<and> cells sen \<inter> mines s = {}" by blast
qed

theorem knowledge_sound_witness:
  "reachable_on 2 3 {(1, 0)} after_duplicate
   \<and> Sentence {(1, 0), (1, 1)} 1 \<in> set (knowledge after_duplicate)
   \<and> 0 \<le> count (Sentence {(1, 0), (1, 1)} 1)
   \<and> count (Sentence {(1, 0), (1, 1)} 1) \<le> int (card (cells (Sentence {(1, 0), (1, 1)} 1)))
   \<and> cells (Sentence {(1, 0), (1, 1)} 1) \<inter> safes after_duplicate = {}
   \<and> cells (Sentence {(1, 0), (1, 1)} 1) \<inter> mines after_duplicate = {}"
proof -
  have m: "Sentence {(1, 0), (1, 1)} 1 \<in> set (knowledge after_duplicate)"
    by (simp add: after_duplicate_def)
  from knowledge_sound [OF reachable_on_after_duplicate] m reachable_on_after_duplicate
  show ?thesis by blast
qed

section \<open>The pruning step under the contract of the board\<close>









section \<open>The three sets only grow\<close>

lemma pass_sets:
  "moves_made (fst (pass s)) = moves_made s
   \<and> safes (fst (pass s)) = safes s \<union> found_safes s
   \<and> mines (fst (pass s)) = mines s \<union> found_mines s"
proof -
  let ?nm = "found_mines s" and ?ns = "found_safes s"
  have ck: "collect_known (knowledge s) = (?nm, ?ns)"
    by (simp add: collect_known_eq found_mines_def found_safes_def)
  obtain s1 u1 where m1: "mark_new_mines ?nm (s, False) = (s1, u1)"
    by (cases "mark_new_mines ?nm (s, False)")
  obtain s2 u2 where m2: "mark_new_safes ?ns (s1, u1) = (s2, u2)"
    by (cases "mark_new_safes ?ns (s1, u1)")
  have f1: "moves_made s1 = moves_made s" "safes s1 = safes s" "mines s1 = mines s \<union> ?nm"
    using m1 unfolding mark_new_mines_eq [OF finite_found(1)] by auto
  have f2: "moves_made s2 = moves_made s1" "safes s2 = safes s1 \<union> ?ns" "mines s2 = mines s1"
    using m2 unfolding mark_new_safes_eq [OF finite_found(2)] by auto
  define u3 where "u3 = (if length (rebuild s2) < length (knowledge s2) then True else u2)"
  obtain inf u4 where i: "infer (rebuild s2) u3 = (inf, u4)"
    by (cases "infer (rebuild s2) u3")
  have "pass s = (s2\<lparr>knowledge := rebuild s2 @ inf\<rparr>, u4)"
    unfolding pass_def ck prod.case m1 m2 Let_def u3_def [symmetric] i ..
  then show ?thesis using f1 f2 by simp
qed

lemma grows_refl: "grows s s"
  unfolding grows_def by blast

lemma grows_trans: "grows a b \<Longrightarrow> grows b c \<Longrightarrow> grows a c"
  unfolding grows_def by blast

lemma grows_pass: "grows s (fst (pass s))"
  unfolding grows_def using pass_sets [of s] by blast

lemma grows_fixpoint:
  assumes run: "fixpoint s = Some s'"
  shows "grows s s'"
proof (rule fixpoint.raw_induct [where P = grows, OF _ run])
  fix f s s'
  assume IH: "\<And>x y. f x = Some y \<Longrightarrow> grows x y"
    and eq: "(if snd (pass s) then f (fst (pass s)) else Some (fst (pass s))) = Some s'"
  show "grows s s'"
  proof (cases "snd (pass s)")
    case True
    with eq have "f (fst (pass s)) = Some s'" by simp
    then have "grows (fst (pass s)) s'" by (rule IH)
    with grows_pass show ?thesis by (rule grows_trans)
  next
    case False
    with eq have "s' = fst (pass s)" by simp
    then show ?thesis using grows_pass by simp
  qed
qed




lemma step_on_step: "step_on h w M s s' \<Longrightarrow> step s s'"
  by (induction rule: step_on.induct) (auto intro: step.intros)




section \<open>Calling again with nothing new\<close>

lemma expected_eq:
  "expected s c cnt =
     Sentence (neighbors (height s) (width s) c - (moves_made s \<union> safes s \<union> mines s))
       (cnt - int (card (neighbors (height s) (width s) c \<inter> mines s)))"
  unfolding expected_def collect_neighbors_eq by simp

lemma cells_expected:
  "cells (expected s c cnt) = neighbors (height s) (width s) c - (moves_made s \<union> safes s \<union> mines s)"
  unfolding expected_eq by (simp add: Sentence_def)

lemma finite_expected: "finite (cells (expected s c cnt))"
  unfolding cells_expected using finite_neighbors by blast

lemma add_sentence_expected:
  "add_sentence s (collect_neighbors s c cnt) =
     (if cells (expected s c cnt) \<noteq> {} \<and> expected s c cnt \<notin> set (knowledge s)
      then s\<lparr>knowledge := knowledge s @ [expected s c cnt]\<rparr> else s)"
proof -
  obtain N k where ck: "collect_neighbors s c cnt = (N, k)" by (cases "collect_neighbors s c cnt")
  have e: "expected s c cnt = Sentence N k" unfolding expected_def ck by simp
  have f: "finite N" using finite_expected [of s c cnt] unfolding e by (simp add: Sentence_def)
  have c: "cells (Sentence N k) = N" by (simp add: Sentence_def)
  have "(card N > 0) = (N \<noteq> {})" using f by (simp add: card_gt_0_iff)
  then show ?thesis unfolding ck e c by (simp add: add_sentence_def Let_def)
qed

lemma quiet_pass:
  assumes "clean s" "\<not> snd (pass s)"
  shows "fst (pass s) = s"
proof -
  from assms have nc: "\<not> changed s" and ni: "fst (infer (pruned s) False) = []"
    unfolding snd_pass [OF assms(1)] by blast+
  from nc have nf: "found_mines s = {}" "found_safes s = {}"
    and len: "\<not> length (pruned s) < length (knowledge s)" unfolding changed_def by blast+
  note pr = pruned_nothing_found [OF nf]
  have "cells x \<noteq> {}" if "x \<in> set (knowledge s)" for x
  proof (rule ccontr)
    assume "\<not> cells x \<noteq> {}"
    with that have "length (filter (\<lambda>sen. cells sen \<noteq> {}) (knowledge s)) < length (knowledge s)"
      by (rule length_filter_less)
    with len show False unfolding pr by blast
  qed
  then have "filter (\<lambda>sen. cells sen \<noteq> {}) (knowledge s) = knowledge s"
    unfolding filter_id_conv by blast
  then have "pruned s = knowledge s" unfolding pr .
  then show ?thesis unfolding pass_clean [OF assms(1)] ni nf by simp
qed

lemma fixpoint_quiet:
  assumes "clean s" "fixpoint s = Some s'"
  shows "clean s' \<and> \<not> snd (pass s') \<and> fst (pass s') = s'"
proof -
  from fixpoint_result [of s s' clean, OF assms(2,1)] clean_pass
  obtain t where t: "clean t" "\<not> snd (pass t)" "s' = fst (pass t)" by blast
  note q = quiet_pass [OF t(1,2)]
  from q t(3) have st: "s' = t" by simp
  show ?thesis unfolding st using t(1,2) q by simp
qed

lemma fixpoint_again:
  assumes "clean s" "fixpoint s = Some s'"
  shows "fixpoint s' = Some s'"
proof -
  from fixpoint_quiet [OF assms] have "\<not> snd (pass s')" "fst (pass s') = s'" by blast+
  then show ?thesis by (subst fixpoint.simps) simp
qed

lemma int_card_Un:
  assumes "finite A" "finite B" "A \<inter> B = {}"
  shows "int (card (A \<union> B)) = int (card A) + int (card B)"
  using card_Un_disjoint [OF assms] by simp

lemma expected_pass:
  assumes "tidy s"
  shows "expected (fst (pass s)) c cnt = reduce_by (found_safes s) (found_mines s) (expected s c cnt)"
proof -
  from assms have cl: "clean s" and mv: "moves_made s \<subseteq> safes s" unfolding tidy_def by blast+
  note dj = clean_found_disjoint [OF cl]
  let ?nb = "neighbors (height s) (width s) c"
  let ?fm = "found_mines s" and ?fs = "found_safes s"
  have A: "?nb - (moves_made s \<union> (safes s \<union> ?fs) \<union> (mines s \<union> ?fm))
         = ?nb - (moves_made s \<union> safes s \<union> mines s) - (?fs \<union> ?fm)" by blast
  have B: "(?nb - (moves_made s \<union> safes s \<union> mines s)) \<inter> ?fm = ?nb \<inter> ?fm"
    using dj(1) mv by blast
  have "?nb \<inter> (mines s \<union> ?fm) = (?nb \<inter> mines s) \<union> (?nb \<inter> ?fm)" by blast
  moreover have "int (card ((?nb \<inter> mines s) \<union> (?nb \<inter> ?fm)))
      = int (card (?nb \<inter> mines s)) + int (card (?nb \<inter> ?fm))"
    using finite_neighbors [of "height s" "width s" c] dj(1) by (intro int_card_Un) blast+
  ultimately have C: "int (card (?nb \<inter> (mines s \<union> ?fm)))
      = int (card (?nb \<inter> mines s)) + int (card (?nb \<inter> ?fm))" by simp
  show ?thesis
    unfolding expected_eq pass_fields [OF cl] A C
    by (simp add: reduce_by_def Sentence_def B)
qed

lemma settled_pass:
  assumes "settled s c cnt"
  shows "settled (fst (pass s)) c cnt"
proof -
  from assms have ti: "tidy s" and mv: "c \<in> moves_made s"
    and ex: "cells (expected s c cnt) = {} \<or> expected s c cnt \<in> set (knowledge s)"
    unfolding settled_def by blast+
  from ti have cl: "clean s" unfolding tidy_def by blast
  let ?e' = "expected (fst (pass s)) c cnt"
  note ep = expected_pass [OF ti, of c cnt]
  have "cells ?e' = {} \<or> ?e' \<in> set (knowledge (fst (pass s)))"
  proof (cases "cells ?e' = {}")
    case True
    then show ?thesis by blast
  next
    case False
    then have "cells (expected s c cnt) \<noteq> {}" unfolding ep cells_reduce_by by blast
    with ex have "expected s c cnt \<in> set (knowledge s)" by blast
    with False have "?e' \<in> set (pruned s)" unfolding mem_pruned ep by blast
    then show ?thesis unfolding knowledge_pass [OF cl] by simp
  qed
  then show ?thesis
    unfolding settled_def using tidy_pass [OF ti] mv pass_fields(1) [OF cl] by blast
qed

lemma settled_observed:
  assumes "tidy s"
  shows "settled (observed s c cnt) c cnt"
proof -
  let ?s2 = "mark_safe (s\<lparr>moves_made := insert c (moves_made s)\<rparr>) c"
  have ob: "observed s c cnt = add_sentence ?s2 (collect_neighbors ?s2 c cnt)"
    unfolding observed_def Let_def ..
  have f: "height (observed s c cnt) = height ?s2" "width (observed s c cnt) = width ?s2"
    "moves_made (observed s c cnt) = moves_made ?s2" "safes (observed s c cnt) = safes ?s2"
    "mines (observed s c cnt) = mines ?s2"
    unfolding ob add_sentence_fields by simp_all
  have e: "expected (observed s c cnt) c cnt = expected ?s2 c cnt"
    unfolding expected_eq f ..
  have "cells (expected ?s2 c cnt) = {} \<or> expected ?s2 c cnt \<in> set (knowledge (observed s c cnt))"
    unfolding ob add_sentence_expected by simp
  then show ?thesis
    unfolding settled_def e using tidy_observed [OF assms] observed_fields(1) [of s c cnt] by blast
qed

lemma settled_fixpoint:
  assumes "settled s c cnt" "fixpoint s = Some s'"
  shows "settled s' c cnt"
proof -
  from fixpoint_result [of s s' "\<lambda>t. settled t c cnt", OF assms(2,1)] settled_pass
  obtain t where "settled t c cnt" "s' = fst (pass t)" by blast
  then show ?thesis using settled_pass by blast
qed

lemma observed_settled:
  assumes "settled s c cnt"
  shows "observed s c cnt = s"
proof -
  from assms have cl: "clean s" and mv: "c \<in> moves_made s" and sf: "c \<in> safes s"
    and ex: "cells (expected s c cnt) = {} \<or> expected s c cnt \<in> set (knowledge s)"
    unfolding settled_def tidy_def by blast+
  have m: "s\<lparr>moves_made := insert c (moves_made s)\<rparr> = s"
    using mv by (simp add: insert_absorb)
  have "sentence_mark_safe x c = x" if "x \<in> set (knowledge s)" for x
  proof -
    from that cl sf have "c \<notin> cells x" unfolding clean_def by blast
    then show ?thesis by (simp add: sentence_mark_safe_def)
  qed
  then have "map (\<lambda>sen. sentence_mark_safe sen c) (knowledge s) = knowledge s" by (rule map_idI)
  then have ms: "mark_safe s c = s" using sf by (simp add: mark_safe_def insert_absorb)
  have "observed s c cnt = add_sentence s (collect_neighbors s c cnt)"
    unfolding observed_def Let_def m ms ..
  also have "\<dots> = s" unfolding add_sentence_expected using ex by simp
  finally show ?thesis .
qed

text \<open>
  Claim C9. In a reachable state (any calls from a new engine), when
  \<^verbatim>\<open>add_knowledge(cell, count)\<close> has returned, a second call with the same cell and the
  same count returns the same state, and so does the loop alone run on that state:
  \<open>knowledge\<close>, \<open>safes\<close>, \<open>mines\<close> and \<open>moves_made\<close> are unchanged, and the single pass
  the loop makes reports no change.
\<close>

theorem add_knowledge_idempotent:
  assumes "reachable s" "add_knowledge s c n = Some s'"
  shows "add_knowledge s' c n = Some s' \<and> fixpoint s' = Some s' \<and> pass s' = (s', False)"
proof -
  note ti = reachable_tidy [OF assms(1)]
  have run: "fixpoint (observed s c n) = Some s'" using assms(2) unfolding add_knowledge_observed .
  have se: "settled s' c n" using settled_observed [OF ti] run by (rule settled_fixpoint)
  have cl: "clean (observed s c n)" using tidy_observed [OF ti] unfolding tidy_def by blast
  note q = fixpoint_quiet [OF cl run]
  have fx: "fixpoint s' = Some s'" using cl run by (rule fixpoint_again)
  have "pass s' = (fst (pass s'), snd (pass s'))" by simp
  with q have p: "pass s' = (s', False)" by simp
  have "add_knowledge s' c n = Some s'"
    unfolding add_knowledge_observed observed_settled [OF se] by (rule fx)
  with fx p show ?thesis by blast
qed

theorem add_knowledge_idempotent_witness:
  "reachable after_corner \<and> add_knowledge after_corner (0, 1) 1 = Some after_duplicate
   \<and> add_knowledge after_duplicate (0, 1) 1 = Some after_duplicate
   \<and> fixpoint after_duplicate = Some after_duplicate
   \<and> pass after_duplicate = (after_duplicate, False)"
proof -
  have "step (init_ai 2 3) after_corner" using run_corner by (rule step.observe)
  with reachable.init [of 2 3] have r: "reachable after_corner" by (rule reachable.call)
  from add_knowledge_idempotent [OF r run_duplicate] r run_duplicate show ?thesis by blast
qed

section \<open>What the subset inference derives\<close>

lemma infer_step_spelled:
  "infer_step kb A B (acc, u) =
     (if A \<noteq> B \<and> cells A \<subset> cells B \<and> 0 < card (cells B - cells A)
         \<and> 0 \<le> count B - count A \<and> count B - count A \<le> int (card (cells B - cells A))
         \<and> Sentence (cells B - cells A) (count B - count A) \<notin> set kb
         \<and> Sentence (cells B - cells A) (count B - count A) \<notin> set acc
      then (acc @ [Sentence (cells B - cells A) (count B - count A)], True)
      else (acc, u))"
proof (cases "cells A \<subset> cells B")
  case True
  then have "A \<noteq> B" by blast
  with True show ?thesis unfolding infer_step_eq inferable_def subtract_def by simp
next
  case False
  then show ?thesis unfolding infer_step_eq inferable_def subtract_def by simp
qed

lemma mem_infer_spelled:
  "new \<in> set (fst (infer kb u)) \<longleftrightarrow>
     (\<exists>A \<in> set kb. \<exists>B \<in> set kb. A \<noteq> B \<and> cells A \<subset> cells B
        \<and> new = Sentence (cells B - cells A) (count B - count A)
        \<and> 0 < card (cells B - cells A)
        \<and> 0 \<le> count B - count A \<and> count B - count A \<le> int (card (cells B - cells A))
        \<and> new \<notin> set kb)"
proof
  assume "new \<in> set (fst (infer kb u))"
  then obtain A B where AB: "A \<in> set kb" "B \<in> set kb" and i: "inferable kb A B"
    and n: "new = subtract A B" unfolding mem_infer by blast
  from i have 1: "cells A \<subset> cells B" and 2: "0 < card (cells B - cells A)"
    and 3: "0 \<le> count B - count A" and 4: "count B - count A \<le> int (card (cells B - cells A))"
    and 5: "subtract A B \<notin> set kb" unfolding inferable_def by simp_all
  from 1 have 6: "A \<noteq> B" by blast
  have 7: "new = Sentence (cells B - cells A) (count B - count A)" unfolding n subtract_def ..
  have 8: "new \<notin> set kb" unfolding n by (rule 5)
  have "A \<noteq> B \<and> cells A \<subset> cells B
        \<and> new = Sentence (cells B - cells A) (count B - count A)
        \<and> 0 < card (cells B - cells A)
        \<and> 0 \<le> count B - count A \<and> count B - count A \<le> int (card (cells B - cells A))
        \<and> new \<notin> set kb"
    using 1 2 3 4 6 7 8 by (intro conjI)
  then show "\<exists>A \<in> set kb. \<exists>B \<in> set kb. A \<noteq> B \<and> cells A \<subset> cells B
        \<and> new = Sentence (cells B - cells A) (count B - count A)
        \<and> 0 < card (cells B - cells A)
        \<and> 0 \<le> count B - count A \<and> count B - count A \<le> int (card (cells B - cells A))
        \<and> new \<notin> set kb"
    using AB by (intro bexI [of _ B] bexI [of _ A])
next
  assume "\<exists>A \<in> set kb. \<exists>B \<in> set kb. A \<noteq> B \<and> cells A \<subset> cells B
        \<and> new = Sentence (cells B - cells A) (count B - count A)
        \<and> 0 < card (cells B - cells A)
        \<and> 0 \<le> count B - count A \<and> count B - count A \<le> int (card (cells B - cells A))
        \<and> new \<notin> set kb"
  then obtain A B where AB: "A \<in> set kb" "B \<in> set kb"
    and h: "A \<noteq> B \<and> cells A \<subset> cells B
        \<and> new = Sentence (cells B - cells A) (count B - count A)
        \<and> 0 < card (cells B - cells A)
        \<and> 0 \<le> count B - count A \<and> count B - count A \<le> int (card (cells B - cells A))
        \<and> new \<notin> set kb"
    by (elim bexE)
  from h have n: "new = subtract A B" unfolding subtract_def by blast
  from h have "new \<notin> set kb" by blast
  then have 5: "subtract A B \<notin> set kb" unfolding n .
  from h have 1: "cells A \<subset> cells B" and 2: "0 < card (cells B - cells A)"
    and 3: "0 \<le> count B - count A" and 4: "count B - count A \<le> int (card (cells B - cells A))"
    by blast+
  have "inferable kb A B" unfolding inferable_def using 1 2 3 4 5 by (intro conjI)
  with AB n show "new \<in> set (fst (infer kb u))" unfolding mem_infer by (intro bexI [of _ B] bexI [of _ A] conjI)
qed

lemma grows_after_pass:
  assumes "fixpoint s = Some s'"
  shows "grows (fst (pass s)) s'"
proof (cases "snd (pass s)")
  case True
  with assms have "fixpoint (fst (pass s)) = Some s'" by (subst (asm) fixpoint.simps) simp
  then show ?thesis by (rule grows_fixpoint)
next
  case False
  with assms have "s' = fst (pass s)" by (subst (asm) fixpoint.simps) simp
  then show ?thesis using grows_refl by simp
qed

lemma known_safes_in_pass:
  assumes "clean s" "sen \<in> set (knowledge s)" "count sen = 0" "c \<in> cells sen"
  shows "c \<in> safes (fst (pass s))"
proof -
  from assms(1,2) have "finite (cells sen)" unfolding clean_def by blast
  with assms(4) have "card (cells sen) > 0" by (auto simp: card_gt_0_iff)
  with assms(3,4) have "c \<in> known_safes sen" unfolding known_safes_def by simp
  with assms(2) have "c \<in> found_safes s" unfolding found_safes_def by blast
  then show ?thesis unfolding pass_fields [OF assms(1)] by blast
qed

lemma three_cells_example:
  assumes d: "a \<noteq> b" "a \<noteq> c" "b \<noteq> c"
    and kb: "knowledge s = [Sentence {a, b, c} 1, Sentence {a, b} 1]"
    and un: "{a, b, c} \<inter> (safes s \<union> mines s) = {}"
  shows "Sentence {c} 0 \<in> set (knowledge (fst (pass s)))
         \<and> (\<exists>s'. fixpoint s = Some s' \<and> c \<in> safes s')"
proof -
  let ?A = "Sentence {a, b} 1" and ?B = "Sentence {a, b, c} 1"
  have cs: "cells ?A = {a, b}" "cells ?B = {a, b, c}" "count ?A = 1" "count ?B = 1"
    by (simp_all add: Sentence_def)
  have cl: "clean s" unfolding clean_def kb using un by (auto simp: Sentence_def)
  have km: "known_mines ?A = {}" "known_mines ?B = {}"
    unfolding known_mines_def cs using d by simp_all
  have ks: "known_safes ?A = {}" "known_safes ?B = {}"
    unfolding known_safes_def cs by simp_all
  have nf: "found_mines s = {}" "found_safes s = {}"
    unfolding found_mines_def found_safes_def kb using km ks by simp_all
  have pr: "pruned s = [?B, ?A]"
    unfolding pruned_nothing_found [OF nf] kb by (simp add: Sentence_def)
  have df0: "{a, b, c} - {a, b} = {c}" using d by auto
  have df: "cells ?B - cells ?A = {c}" unfolding cs by (rule df0)
  have sub: "subtract ?A ?B = Sentence {c} 0" unfolding subtract_def cs df0 by simp
  have ne: "Sentence {c} 0 \<noteq> ?A" "Sentence {c} 0 \<noteq> ?B" by (simp_all add: Sentence_def)
  have "cells ?A \<subset> cells ?B" unfolding cs using d by auto
  then have "inferable (pruned s) ?A ?B"
    unfolding inferable_def sub df pr using ne cs(3,4) by simp
  then have inf: "Sentence {c} 0 \<in> set (fst (infer (pruned s) False))"
    unfolding mem_infer pr using sub by auto
  then have k1: "Sentence {c} 0 \<in> set (knowledge (fst (pass s)))"
    unfolding knowledge_pass [OF cl] by simp
  from inf have "fst (infer (pruned s) False) \<noteq> []" by auto
  then have again: "snd (pass s)" unfolding snd_pass [OF cl] by blast
  obtain s' where run: "fixpoint s = Some s'" using fixpoint_clean [OF cl] by blast
  with again have run1: "fixpoint (fst (pass s)) = Some s'" by (subst (asm) fixpoint.simps) simp
  have "c \<in> safes (fst (pass (fst (pass s))))"
    using clean_pass [OF cl] k1 by (rule known_safes_in_pass) (simp_all add: Sentence_def)
  moreover have "grows (fst (pass (fst (pass s)))) s'" using run1 by (rule grows_after_pass)
  ultimately have "c \<in> safes s'" unfolding grows_def by blast
  with k1 run show ?thesis by blast
qed

text \<open>
  Claim C1. In a pass of the loop, for the sentences \<open>A\<close> and \<open>B\<close> the two nested loops
  visit in the rebuilt knowledge base \<open>kb\<close>, with \<open>acc\<close> the sentences inferred so far in
  the pass: the sentence with the cells of \<open>B\<close> that are not in \<open>A\<close> and the difference
  of the counts is appended exactly when \<open>A\<close> and \<open>B\<close> differ, the cells of \<open>A\<close> are a
  strict subset of those of \<open>B\<close>, the new sentence has at least one cell and a count
  between 0 and the number of its cells, and no equal sentence is in \<open>kb\<close> or in \<open>acc\<close>.
  So the sentences a pass infers are exactly those built from such pairs and not yet in
  \<open>kb\<close>, each once, and the pass leaves them after the rebuilt knowledge base. From
  \<open>{a, b, c} = 1\<close> and \<open>{a, b} = 1\<close> the first pass infers \<open>{c} = 0\<close>, and the loop
  returns with \<open>c\<close> among the safes.
\<close>

theorem subset_inference:
  "infer_step kb A B (acc, u) =
     (if A \<noteq> B \<and> cells A \<subset> cells B \<and> 0 < card (cells B - cells A)
         \<and> 0 \<le> count B - count A \<and> count B - count A \<le> int (card (cells B - cells A))
         \<and> Sentence (cells B - cells A) (count B - count A) \<notin> set kb
         \<and> Sentence (cells B - cells A) (count B - count A) \<notin> set acc
      then (acc @ [Sentence (cells B - cells A) (count B - count A)], True)
      else (acc, u))
   \<and> (new \<in> set (fst (infer kb u)) \<longleftrightarrow>
        (\<exists>A \<in> set kb. \<exists>B \<in> set kb. A \<noteq> B \<and> cells A \<subset> cells B
           \<and> new = Sentence (cells B - cells A) (count B - count A)
           \<and> 0 < card (cells B - cells A)
           \<and> 0 \<le> count B - count A \<and> count B - count A \<le> int (card (cells B - cells A))
           \<and> new \<notin> set kb))
   \<and> distinct (fst (infer kb u))
   \<and> knowledge (fst (pass s)) = rebuild (marked s) @ fst (infer (rebuild (marked s)) False)
   \<and> (a \<noteq> b \<and> a \<noteq> c \<and> b \<noteq> c
        \<and> knowledge s = [Sentence {a, b, c} 1, Sentence {a, b} 1]
        \<and> {a, b, c} \<inter> (safes s \<union> mines s) = {}
      \<longrightarrow> Sentence {c} 0 \<in> set (knowledge (fst (pass s)))
          \<and> (\<exists>s'. fixpoint s = Some s' \<and> c \<in> safes s'))"
proof (intro conjI)
  show "infer_step kb A B (acc, u) =
     (if A \<noteq> B \<and> cells A \<subset> cells B \<and> 0 < card (cells B - cells A)
         \<and> 0 \<le> count B - count A \<and> count B - count A \<le> int (card (cells B - cells A))
         \<and> Sentence (cells B - cells A) (count B - count A) \<notin> set kb
         \<and> Sentence (cells B - cells A) (count B - count A) \<notin> set acc
      then (acc @ [Sentence (cells B - cells A) (count B - count A)], True)
      else (acc, u))"
    by (rule infer_step_spelled)
  show "new \<in> set (fst (infer kb u)) \<longleftrightarrow>
        (\<exists>A \<in> set kb. \<exists>B \<in> set kb. A \<noteq> B \<and> cells A \<subset> cells B
           \<and> new = Sentence (cells B - cells A) (count B - count A)
           \<and> 0 < card (cells B - cells A)
           \<and> 0 \<le> count B - count A \<and> count B - count A \<le> int (card (cells B - cells A))
           \<and> new \<notin> set kb)"
    by (rule mem_infer_spelled)
  show "distinct (fst (infer kb u))" by (rule infer_result(2))
  show "knowledge (fst (pass s)) = rebuild (marked s) @ fst (infer (rebuild (marked s)) False)"
    by (rule pass_knowledge)
  show "a \<noteq> b \<and> a \<noteq> c \<and> b \<noteq> c
        \<and> knowledge s = [Sentence {a, b, c} 1, Sentence {a, b} 1]
        \<and> {a, b, c} \<inter> (safes s \<union> mines s) = {}
      \<longrightarrow> Sentence {c} 0 \<in> set (knowledge (fst (pass s)))
          \<and> (\<exists>s'. fixpoint s = Some s' \<and> c \<in> safes s')"
  proof
    assume h: "a \<noteq> b \<and> a \<noteq> c \<and> b \<noteq> c
        \<and> knowledge s = [Sentence {a, b, c} 1, Sentence {a, b} 1]
        \<and> {a, b, c} \<inter> (safes s \<union> mines s) = {}"
    then have "a \<noteq> b" "a \<noteq> c" "b \<noteq> c"
      "knowledge s = [Sentence {a, b, c} 1, Sentence {a, b} 1]"
      "{a, b, c} \<inter> (safes s \<union> mines s) = {}" by simp_all
    then show "Sentence {c} 0 \<in> set (knowledge (fst (pass s)))
          \<and> (\<exists>s'. fixpoint s = Some s' \<and> c \<in> safes s')"
      by (rule three_cells_example)
  qed
qed

theorem subset_inference_witness:
  "knowledge three_cells = [Sentence {(0, 0), (0, 1), (0, 2)} 1, Sentence {(0, 0), (0, 1)} 1]
   \<and> {(0, 0), (0, 1), (0, 2)} \<inter> (safes three_cells \<union> mines three_cells) = {}
   \<and> Sentence {(0, 2)} 0 \<in> set (knowledge (fst (pass three_cells)))
   \<and> (\<exists>s'. fixpoint three_cells = Some s' \<and> (0, 2) \<in> safes s')
   \<and> infer_step (knowledge three_cells) (Sentence {(0, 0), (0, 1)} 1)
         (Sentence {(0, 0), (0, 1), (0, 2)} 1) ([], False) = ([Sentence {(0, 2)} 0], True)
   \<and> fst (infer (knowledge three_cells) False) = [Sentence {(0, 2)} 0]"
proof -
  have d: "((0, 0) :: cell) \<noteq> (0, 1)" "((0, 0) :: cell) \<noteq> (0, 2)" "((0, 1) :: cell) \<noteq> (0, 2)"
    by simp_all
  have k: "knowledge three_cells = [Sentence {(0, 0), (0, 1), (0, 2)} 1, Sentence {(0, 0), (0, 1)} 1]"
    by (simp add: three_cells_def)
  have u: "{(0, 0), (0, 1), (0, 2)} \<inter> (safes three_cells \<union> mines three_cells) = {}"
    by (simp add: three_cells_def init_ai_def)
  from subset_inference [where s = three_cells and a = "(0, 0)" and b = "(0, 1)" and c = "(0, 2)"]
    d k u
  have e: "Sentence {(0, 2)} 0 \<in> set (knowledge (fst (pass three_cells)))
      \<and> (\<exists>s'. fixpoint three_cells = Some s' \<and> (0, 2) \<in> safes s')" by blast
  have st: "infer_step (knowledge three_cells) (Sentence {(0, 0), (0, 1)} 1)
         (Sentence {(0, 0), (0, 1), (0, 2)} 1) ([], False) = ([Sentence {(0, 2)} 0], True)"
    by code_simp
  have i: "fst (infer (knowledge three_cells) False) = [Sentence {(0, 2)} 0]" by code_simp
  from k u e st i show ?thesis by blast
qed

end
